theory Spec2Isabelle
  imports Main "HOL-Library.Char_ord" "HOL-Library.List_Lexorder" "HOL-Library.Sublist"
    "HOL-Library.Multiset"
    "HOL-Library.Word"
begin

section \<open>Characters and library functions used by the program\<close>

text \<open>
  A \<^verbatim>\<open>std::string\<close> is a sequence of bytes: \<^typ>\<open>string\<close>. The program never
  calls \<^verbatim>\<open>setlocale\<close>, so \<^verbatim>\<open>std::isspace\<close> and \<^verbatim>\<open>std::toupper\<close> work
  in the "C" locale: six whitespace characters, and only the letters a..z are changed
  by \<^verbatim>\<open>toupper\<close>.
\<close>

definition newline :: char where
  "newline = CHR 0x0A"

definition isspace :: "char \<Rightarrow> bool" where
  "isspace c = (c = CHR '' '' \<or> c = CHR 0x09 \<or> c = CHR 0x0A \<or> c = CHR 0x0B
     \<or> c = CHR 0x0C \<or> c = CHR 0x0D)"

definition toupper :: "char \<Rightarrow> char" where
  "toupper c = (let n = (of_char c :: nat) in
     if 97 \<le> n \<and> n \<le> 122 then char_of (n - 32) else c)"

section \<open>trim\<close>

text \<open>The two index loops of \<^verbatim>\<open>trim\<close>, on \<^verbatim>\<open>size_t\<close> indices that stay within
  \<open>0..s.size()\<close>.\<close>

function trim_start :: "string \<Rightarrow> nat \<Rightarrow> nat" where
  "trim_start s start =
     (if start < length s \<and> isspace (s ! start) then trim_start s (start + 1) else start)"
  by pat_completeness auto
termination
  by (relation "measure (\<lambda>(s, start). length s - start)") auto

declare trim_start.simps [simp del]

function trim_end :: "string \<Rightarrow> nat \<Rightarrow> nat \<Rightarrow> nat" where
  "trim_end s start e =
     (if e > start \<and> isspace (s ! (e - 1)) then trim_end s start (e - 1) else e)"
  by pat_completeness auto
termination
  by (relation "measure (\<lambda>(s, start, e). e)") auto

declare trim_end.simps [simp del]

text \<open>\<^verbatim>\<open>s.substr(pos, n)\<close> for \<open>pos \<le> s.size()\<close>.\<close>

definition substr :: "string \<Rightarrow> nat \<Rightarrow> nat \<Rightarrow> string" where
  "substr s pos n = take n (drop pos s)"

definition trim :: "string \<Rightarrow> string" where
  "trim s = (let start = trim_start s 0; e = trim_end s start (length s)
             in substr s start (e - start))"

section \<open>extract_level\<close>

definition levels :: "string list" where
  "levels = [''TRACE'', ''DEBUG'', ''INFO'', ''WARN'', ''WARNING'', ''ERROR'', ''FATAL'']"

text \<open>
  \<^verbatim>\<open>iss >> token\<close> on the unread rest of the stream: skip leading whitespace, then
  take characters up to the next whitespace or the end. When nothing is left after the
  whitespace the extraction fails (\<open>None\<close>) and the \<^verbatim>\<open>while\<close> loop ends.
\<close>

definition read_token :: "string \<Rightarrow> (string \<times> string) option" where
  "read_token inp = (let s = dropWhile isspace inp in
     if s = [] then None
     else Some (takeWhile (\<lambda>c. \<not> isspace c) s, dropWhile (\<lambda>c. \<not> isspace c) s))"

text \<open>The inner \<^verbatim>\<open>for\<close> loop over \<open>levels\<close>, with its two returns.\<close>

fun match_levels :: "string \<Rightarrow> string list \<Rightarrow> string option" where
  "match_levels upper [] = None"
| "match_levels upper (lvl # lvls) =
     (if upper = lvl then (if upper = ''WARNING'' then Some ''WARN'' else Some upper)
      else match_levels upper lvls)"

function scan_tokens :: "string \<Rightarrow> string" where
  "scan_tokens inp =
     (case read_token inp of
        None \<Rightarrow> ''UNKNOWN''
      | Some (token, rest) \<Rightarrow>
          (let upper = map toupper token in
           case match_levels upper levels of
             Some r \<Rightarrow> r
           | None \<Rightarrow> scan_tokens rest))"
  by pat_completeness auto
termination
proof (relation "measure length")
  show "wf (measure length)" by simp
next
  fix inp :: string and x2 token rest upper
  assume "read_token inp = Some x2" and "(token, rest) = x2"
  then have r: "read_token inp = Some (token, rest)" by simp
  define s where "s = dropWhile isspace inp"
  from r have ne: "s \<noteq> []" and rest: "rest = dropWhile (\<lambda>c. \<not> isspace c) s"
    by (auto simp: read_token_def Let_def s_def split: if_splits)
  from ne have "\<not> isspace (hd s)"
    unfolding s_def by (rule hd_dropWhile)
  with ne have "length rest < length s"
    unfolding rest by (cases s) (auto simp: le_imp_less_Suc length_dropWhile_le)
  moreover have "length s \<le> length inp"
    unfolding s_def by (rule length_dropWhile_le)
  ultimately show "(rest, inp) \<in> measure length" by simp
qed

declare scan_tokens.simps [simp del]

definition extract_level :: "string \<Rightarrow> string" where
  "extract_level line = scan_tokens line"

section \<open>extract_message\<close>

text \<open>\<^verbatim>\<open>line.find(marker)\<close>: the least position at which \<open>marker\<close> starts, scanning from
  position \<open>pos\<close>; \<open>None\<close> is \<^verbatim>\<open>npos\<close>.\<close>

fun find_from :: "string \<Rightarrow> string \<Rightarrow> nat \<Rightarrow> nat option" where
  "find_from marker [] pos = (if marker = [] then Some pos else None)"
| "find_from marker (c # cs) pos =
     (if take (length marker) (c # cs) = marker then Some pos
      else find_from marker cs (pos + 1))"

definition extract_message :: "string \<Rightarrow> string" where
  "extract_message line = (let marker = '' - '' in
     case find_from marker line 0 of
       Some pos \<Rightarrow> trim (drop (pos + length marker) line)
     | None \<Rightarrow> trim line)"

section \<open>Statistics and the processing pass\<close>

text \<open>
  \<^verbatim>\<open>struct Stats\<close>. Each \<^verbatim>\<open>std::unordered_map\<close> is a finite map; the order in which
  a range-\<^verbatim>\<open>for\<close> visits its entries is unspecified, so \<open>print_results\<close> below takes
  that order as an argument. The \<^verbatim>\<open>long long\<close> counters are unbounded integers here:
  a counter grows by one per input line, so reaching \<open>2^63\<close> needs that many lines.
\<close>

record Stats =
  total_lines :: int
  level_counts :: "string \<rightharpoonup> int"
  message_counts :: "string \<rightharpoonup> int"

text \<open>\<^verbatim>\<open>Stats stats;\<close> in \<open>main\<close>: the default member initialisers.\<close>

definition init_stats :: Stats where
  "init_stats = \<lparr>total_lines = 0, level_counts = Map.empty, message_counts = Map.empty\<rparr>"

text \<open>\<^verbatim>\<open>m[k]++\<close>: \<^verbatim>\<open>operator[]\<close> inserts the value 0 under a missing key, then the
  value is incremented.\<close>

definition incr :: "(string \<rightharpoonup> int) \<Rightarrow> string \<Rightarrow> (string \<rightharpoonup> int)" where
  "incr m k = m(k \<mapsto> (case m k of None \<Rightarrow> 0 | Some v \<Rightarrow> v) + 1)"

text \<open>
  \<^verbatim>\<open>std::getline(infile, line)\<close> on the unread rest of the file: at the end of the
  file nothing is extracted and the call fails; otherwise the line is everything up to
  the next newline, which is consumed, or up to the end of the file.
\<close>

definition getline :: "string \<Rightarrow> (string \<times> string) option" where
  "getline inp = (if inp = [] then None
     else Some (takeWhile (\<lambda>c. c \<noteq> newline) inp, drop 1 (dropWhile (\<lambda>c. c \<noteq> newline) inp)))"

text \<open>The body of the \<^verbatim>\<open>while\<close> loop of \<open>process_file\<close>.\<close>

definition process_line :: "string \<Rightarrow> Stats \<Rightarrow> Stats" where
  "process_line line stats =
     (let stats1 = stats\<lparr>total_lines := total_lines stats + 1\<rparr>;
          level = extract_level line;
          stats2 = stats1\<lparr>level_counts := incr (level_counts stats1) level\<rparr>;
          msg = extract_message line
      in if msg \<noteq> [] then stats2\<lparr>message_counts := incr (message_counts stats2) msg\<rparr>
         else stats2)"

function read_loop :: "string \<Rightarrow> Stats \<Rightarrow> Stats" where
  "read_loop inp stats =
     (case getline inp of
        None \<Rightarrow> stats
      | Some (line, rest) \<Rightarrow> read_loop rest (process_line line stats))"
  by pat_completeness auto
termination
proof (relation "measure (\<lambda>(inp, stats). length inp)")
  show "wf (measure (\<lambda>(inp, stats :: Stats). length inp))" by simp
next
  fix inp :: string and stats :: Stats and x2 line rest
  assume "getline inp = Some x2" and "(line, rest) = x2"
  then have g: "getline inp = Some (line, rest)" by simp
  then have ne: "inp \<noteq> []" and rest: "rest = drop 1 (dropWhile (\<lambda>c. c \<noteq> newline) inp)"
    by (auto simp: getline_def split: if_splits)
  have "length (dropWhile (\<lambda>c. c \<noteq> newline) inp) \<le> length inp"
    by (rule length_dropWhile_le)
  with ne have "length rest < length inp"
    unfolding rest by (cases inp) auto
  then show "((rest, process_line line stats), (inp, stats)) \<in> measure (\<lambda>(inp, stats). length inp)"
    by simp
qed

declare read_loop.simps [simp del]

text \<open>
  The file system is a partial map from paths to contents; \<open>None\<close> is a path that
  \<^verbatim>\<open>std::ifstream\<close> cannot open. \<open>process_file\<close> returns \<open>None\<close> for \<^verbatim>\<open>false\<close> and
  the updated statistics for \<^verbatim>\<open>true\<close>.
\<close>

definition process_file :: "(string \<rightharpoonup> string) \<Rightarrow> string \<Rightarrow> Stats \<Rightarrow> Stats option" where
  "process_file fs filepath stats =
     (case fs filepath of
        None \<Rightarrow> None
      | Some content \<Rightarrow> Some (read_loop content stats))"

section \<open>print_results\<close>

text \<open>\<^verbatim>\<open>operator<<\<close> on an integer: decimal digits, a minus sign when negative.\<close>

function show_nat :: "nat \<Rightarrow> string" where
  "show_nat n = (if n < 10 then [char_of (48 + n)]
                 else show_nat (n div 10) @ [char_of (48 + n mod 10)])"
  by pat_completeness auto
termination
  by (relation "measure id") auto

declare show_nat.simps [simp del]

definition show_int :: "int \<Rightarrow> string" where
  "show_int i = (if i < 0 then CHR ''-'' # show_nat (nat (- i)) else show_nat (nat i))"

definition common :: "string list" where
  "common = [''INFO'', ''WARN'', ''ERROR'', ''DEBUG'', ''TRACE'', ''FATAL'', ''UNKNOWN'']"

definition level_line :: "string \<Rightarrow> int \<Rightarrow> string" where
  "level_line lvl n = ''  '' @ lvl @ '': '' @ show_int n @ [newline]"

text \<open>First loop: the levels of \<open>common\<close>, those present in the map.\<close>

fun print_common :: "(string \<rightharpoonup> int) \<Rightarrow> string list \<Rightarrow> string" where
  "print_common m [] = []"
| "print_common m (lvl # lvls) =
     (case m lvl of Some n \<Rightarrow> level_line lvl n | None \<Rightarrow> []) @ print_common m lvls"

text \<open>Second loop, over the entries of \<open>level_counts\<close> in iteration order:
  \<^verbatim>\<open>std::find\<close> reaching \<open>common.end()\<close> is \<open>find\<close> returning \<open>None\<close>.\<close>

fun print_extra :: "string list \<Rightarrow> (string \<times> int) list \<Rightarrow> string" where
  "print_extra cm [] = []"
| "print_extra cm (kv # kvs) =
     (if find (\<lambda>c. c = fst kv) cm = None then level_line (fst kv) (snd kv) else [])
     @ print_extra cm kvs"

text \<open>The comparison passed to \<^verbatim>\<open>std::sort\<close>; \<open><\<close> on strings is the
  lexicographic order on bytes, as \<^verbatim>\<open>std::string::operator<\<close>.\<close>

definition sort_cmp :: "string \<times> int \<Rightarrow> string \<times> int \<Rightarrow> bool" where
  "sort_cmp a b = (if snd a \<noteq> snd b then snd a > snd b else fst a < fst b)"

text \<open>
  \<^verbatim>\<open>std::sort\<close> returns a permutation of its input that is ordered by the comparison;
  which algorithm it runs is not fixed. Insertion sort stands for it here, and
  \<open>sort_pairs_unique\<close> below shows that on entries with distinct keys every such
  permutation is the same list.
\<close>

fun insert_pair :: "string \<times> int \<Rightarrow> (string \<times> int) list \<Rightarrow> (string \<times> int) list" where
  "insert_pair x [] = [x]"
| "insert_pair x (y # ys) = (if sort_cmp x y then x # y # ys else y # insert_pair x ys)"

definition sort_pairs :: "(string \<times> int) list \<Rightarrow> (string \<times> int) list" where
  "sort_pairs ps = foldr insert_pair ps []"

text \<open>\<^verbatim>\<open>static_cast<int>(pairs.size())\<close>: the low 32 bits, read as a signed number.\<close>

definition size_as_int :: "nat \<Rightarrow> int" where
  "size_as_int n = sint (word_of_nat n :: 32 word)"

definition top_line :: "int \<Rightarrow> string \<times> int \<Rightarrow> string" where
  "top_line rank p =
     ''  '' @ show_int rank @ '') '' @ fst p @ '' ('' @ show_int (snd p) @ '')'' @ [newline]"

text \<open>The loop \<^verbatim>\<open>for (int i = 0; i < limit; i++)\<close>.\<close>

function print_top :: "(string \<times> int) list \<Rightarrow> int \<Rightarrow> int \<Rightarrow> string" where
  "print_top pairs limit i =
     (if i < limit then top_line (i + 1) (pairs ! nat i) @ print_top pairs limit (i + 1)
      else [])"
  by pat_completeness auto
termination
  by (relation "measure (\<lambda>(pairs, limit, i). nat (limit - i))") auto

declare print_top.simps [simp del]

text \<open>The last part of \<open>print_results\<close>, from "Compute top N messages" on;
  \<open>message_iter\<close> is the order in which the loop visits \<open>message_counts\<close>.\<close>

definition top_limit :: "int \<Rightarrow> (string \<times> int) list \<Rightarrow> int" where
  "top_limit top_n pairs = min top_n (size_as_int (length pairs))"

definition print_top_messages :: "int \<Rightarrow> (string \<times> int) list \<Rightarrow> string" where
  "print_top_messages top_n message_iter =
     (let pairs = sort_pairs message_iter;
          limit = top_limit top_n pairs
      in [newline] @ ''Top messages:'' @ [newline]
         @ print_top pairs limit 0
         @ (if limit = 0 then ''  (No messages found)'' @ [newline] else [])
         @ [newline])"

definition print_results ::
    "Stats \<Rightarrow> int \<Rightarrow> (string \<times> int) list \<Rightarrow> (string \<times> int) list \<Rightarrow> string" where
  "print_results stats top_n level_iter message_iter =
     [newline] @ ''Summary'' @ [newline]
     @ ''-------'' @ [newline]
     @ ''Total lines: '' @ show_int (total_lines stats) @ [newline, newline]
     @ ''Log levels:'' @ [newline]
     @ print_common (level_counts stats) common
     @ print_extra common level_iter
     @ print_top_messages top_n message_iter"

section \<open>Command line\<close>

definition print_usage :: "string \<Rightarrow> string" where
  "print_usage exe =
     ''Usage:'' @ [newline]
     @ ''  '' @ exe @ '' <log_file_path> [--top N]'' @ [newline, newline]
     @ ''Examples:'' @ [newline]
     @ ''  '' @ exe @ '' sample_logs/sample.log'' @ [newline]
     @ ''  '' @ exe @ '' sample_logs/sample.log --top 10'' @ [newline]"

text \<open>
  \<^verbatim>\<open>std::stoi(str)\<close>, base 10, after \<^verbatim>\<open>strtol\<close>: leading whitespace is skipped, one
  sign is accepted, then the longest run of digits is converted and whatever follows is
  ignored. No digit at all throws \<^verbatim>\<open>std::invalid_argument\<close>; a value outside the
  range of \<^verbatim>\<open>int\<close> throws \<^verbatim>\<open>std::out_of_range\<close>.
\<close>

datatype stoi_error = invalid_argument | out_of_range

definition isdigit :: "char \<Rightarrow> bool" where
  "isdigit c = (CHR ''0'' \<le> c \<and> c \<le> CHR ''9'')"

definition digits_value :: "string \<Rightarrow> int" where
  "digits_value ds = foldl (\<lambda>acc c. acc * 10 + (of_char c - 48)) 0 ds"

definition stoi :: "string \<Rightarrow> stoi_error + int" where
  "stoi str =
     (let s = dropWhile isspace str;
          (neg, s2) = (case s of
                         [] \<Rightarrow> (False, s)
                       | c # cs \<Rightarrow> if c = CHR ''-'' then (True, cs)
                                   else if c = CHR ''+'' then (False, cs)
                                   else (False, s));
          ds = takeWhile isdigit s2
      in if ds = [] then Inl invalid_argument
         else (let v = (if neg then - digits_value ds else digits_value ds)
               in if v < - 2147483648 \<or> 2147483647 < v then Inl out_of_range
                  else Inr v))"

text \<open>
  \<open>parse_args\<close> returns its \<^verbatim>\<open>bool\<close> together with the two reference parameters as
  it leaves them; \<open>filepath0\<close> is the caller's \<open>filepath\<close> on entry. \<open>argc\<close> is the
  length of \<open>argv\<close>. An exception of \<open>stoi\<close> leaves \<open>top_n\<close> at its default.
\<close>

definition parse_args :: "string list \<Rightarrow> string \<Rightarrow> bool \<times> string \<times> int" where
  "parse_args argv filepath0 =
     (let top_n = 5; argc = length argv
      in if argc < 2 then (False, filepath0, top_n)
         else (let filepath = argv ! 1
               in if argc = 4 then
                    (let flag = argv ! 2
                     in if flag \<noteq> ''--top'' then (False, filepath, top_n)
                        else (case stoi (argv ! 3) of
                                Inr v \<Rightarrow> (True, filepath, if v < 1 then 1 else v)
                              | Inl e \<Rightarrow> (False, filepath, top_n)))
                  else if argc \<noteq> 2 then (False, filepath, top_n)
                  else (True, filepath, top_n)))"

text \<open>
  What one run of the program leaves behind: the exit code and what was written to
  standard output and to standard error. \<open>iter\<close> gives the order in which a range-for
  visits the entries of a map.
\<close>

record Outcome =
  exit_code :: int
  std_out :: string
  std_err :: string

definition main ::
    "((string \<rightharpoonup> int) \<Rightarrow> (string \<times> int) list) \<Rightarrow> (string \<rightharpoonup> string) \<Rightarrow> string list \<Rightarrow> Outcome" where
  "main iter fs argv =
     (case parse_args argv [] of
        (ok, filepath, top_n) \<Rightarrow>
          if \<not> ok then
            \<lparr>exit_code = 1,
             std_out = print_usage (if length argv > 0 then argv ! 0 else ''log_parser''),
             std_err = []\<rparr>
          else (case process_file fs filepath init_stats of
                  None \<Rightarrow>
                    \<lparr>exit_code = 2, std_out = [],
                     std_err = ''Error: Could not open file: '' @ filepath @ [newline]\<rparr>
                | Some stats \<Rightarrow>
                    \<lparr>exit_code = 0,
                     std_out = print_results stats top_n
                                 (iter (level_counts stats)) (iter (message_counts stats)),
                     std_err = []\<rparr>))"

section \<open>Notions used by the properties\<close>

subsection \<open>Tokens and case-insensitive comparison\<close>

text \<open>
  The whitespace-delimited tokens of a line: the line is cut at every whitespace
  character and the empty pieces are dropped. Two strings are equal without regard to
  case when they agree after every letter A..Z is replaced by its lower-case form.
\<close>

definition tolower :: "char \<Rightarrow> char" where
  "tolower c = (let n = (of_char c :: nat) in
     if 65 \<le> n \<and> n \<le> 90 then char_of (n + 32) else c)"

definition ci_equal :: "string \<Rightarrow> string \<Rightarrow> bool" where
  "ci_equal a b = (map tolower a = map tolower b)"

definition candidates :: "string list" where
  "candidates = [''TRACE'', ''DEBUG'', ''INFO'', ''WARN'', ''WARNING'', ''ERROR'', ''FATAL'']"

fun split_on :: "(char \<Rightarrow> bool) \<Rightarrow> string \<Rightarrow> string list" where
  "split_on p [] = [[]]"
| "split_on p (c # cs) =
     (if p c then [] # split_on p cs
      else (let r = split_on p cs in (c # hd r) # tl r))"

definition tokens :: "string \<Rightarrow> string list" where
  "tokens s = filter (\<lambda>t. t \<noteq> []) (split_on isspace s)"

definition is_level_token :: "string \<Rightarrow> bool" where
  "is_level_token t = list_ex (ci_equal t) candidates"

definition level_of_tokens :: "string list \<Rightarrow> string" where
  "level_of_tokens ts =
     (case find is_level_token ts of
        None \<Rightarrow> ''UNKNOWN''
      | Some t \<Rightarrow> if ci_equal t ''WARNING'' then ''WARN'' else map toupper t)"

subsection \<open>Stripping whitespace\<close>

text \<open>A string with its leading and its trailing whitespace removed.\<close>

definition strip :: "string \<Rightarrow> string" where
  "strip s = rev (dropWhile isspace (rev (dropWhile isspace s)))"

subsection \<open>Lines of a file and totals of a map\<close>

text \<open>
  The lines of a file: its content cut at every newline, without the empty piece after a
  final newline. \<open>sum_values\<close> adds up the values of a map, and \<open>occurrences\<close> counts
  the lines with a given extracted message.
\<close>

definition file_lines :: "string \<Rightarrow> string list" where
  "file_lines content =
     (let parts = split_on (\<lambda>c. c = newline) content
      in if last parts = [] then butlast parts else parts)"

definition sum_values :: "(string \<rightharpoonup> int) \<Rightarrow> int" where
  "sum_values m = (\<Sum>k \<in> dom m. the (m k))"

definition occurrences :: "string \<Rightarrow> string list \<Rightarrow> nat" where
  "occurrences msg ls = length (filter (\<lambda>l. extract_message l = msg) ls)"

subsection \<open>Ranking of messages\<close>

text \<open>An entry comes before another in the ranking when its count is higher, or the
  counts are equal and its message is smaller in the lexicographic order on bytes.\<close>

definition ranked_before :: "string \<times> int \<Rightarrow> string \<times> int \<Rightarrow> bool" where
  "ranked_before a b = (snd a > snd b \<or> (snd a = snd b \<and> fst a < fst b))"

subsection \<open>Invocations and the report of an empty file\<close>

text \<open>
  The two supported shapes of the argument list: \<open>program file\<close>, and
  \<open>program file --top N\<close> where the conversion of \<open>N\<close> by \<open>stoi\<close> succeeds.
\<close>

definition valid_args :: "string list \<Rightarrow> bool" where
  "valid_args argv =
     (case argv of
        [exe, path] \<Rightarrow> True
      | [exe, path, flag, n] \<Rightarrow> flag = ''--top'' \<and> (case stoi n of Inr v \<Rightarrow> True | Inl e \<Rightarrow> False)
      | _ \<Rightarrow> False)"

text \<open>The report without level lines and with the placeholder for the messages.\<close>

definition empty_report :: string where
  "empty_report =
     [newline] @ ''Summary'' @ [newline]
     @ ''-------'' @ [newline]
     @ ''Total lines: 0'' @ [newline]
     @ [newline]
     @ ''Log levels:'' @ [newline]
     @ [newline]
     @ ''Top messages:'' @ [newline]
     @ ''  (No messages found)'' @ [newline]
     @ [newline]"

subsection \<open>Integers in the text of an argument\<close>










subsection \<open>A file with many distinct messages\<close>

text \<open>The file whose \<open>n\<close> lines are the numbers from 0 to \<open>n - 1\<close> in decimal, and the
  entries that its messages make: each number once.\<close>

definition numbered_lines :: "nat \<Rightarrow> string" where
  "numbered_lines n = concat (map (\<lambda>i. show_nat i @ [newline]) [0..<n])"

definition numbered_entries :: "nat \<Rightarrow> (string \<times> int) list" where
  "numbered_entries n = map (\<lambda>i. (show_nat i, 1)) [0..<n]"

section \<open>Level extraction\<close>

lemma of_char_toupper:
  "(of_char (toupper c) :: nat) =
     (if 97 \<le> (of_char c :: nat) \<and> (of_char c :: nat) \<le> 122 then of_char c - 32 else of_char c)"
proof -
  have "(of_char c :: nat) - 32 < 256"
    using nat_of_char_less_256 [of c] by (rule less_imp_diff_less)
  then show ?thesis by (simp add: toupper_def Let_def)
qed

lemma of_char_tolower:
  "(of_char (tolower c) :: nat) =
     (if 65 \<le> (of_char c :: nat) \<and> (of_char c :: nat) \<le> 90 then of_char c + 32 else of_char c)"
proof -
  have "(of_char c :: nat) < 256" by (rule nat_of_char_less_256)
  then have "65 \<le> (of_char c :: nat) \<and> (of_char c :: nat) \<le> 90 \<Longrightarrow>
      ((of_char c :: nat) + 32) mod 256 = of_char c + 32"
    by simp
  then show ?thesis by (simp add: tolower_def Let_def)
qed

lemma case_fold_nat:
  fixes n m :: nat
  shows "(if 65 \<le> n \<and> n \<le> 90 then n + 32 else n) = (if 65 \<le> m \<and> m \<le> 90 then m + 32 else m)
    \<longleftrightarrow> (if 97 \<le> n \<and> n \<le> 122 then n - 32 else n) = (if 97 \<le> m \<and> m \<le> 122 then m - 32 else m)"
  by (simp split: if_splits) arith

lemma tolower_eq_iff: "tolower c = tolower d \<longleftrightarrow> toupper c = toupper d"
proof -
  have "tolower c = tolower d \<longleftrightarrow> (of_char (tolower c) :: nat) = of_char (tolower d)"
    by (simp only: of_char_eq_iff)
  also have "\<dots> \<longleftrightarrow> (of_char (toupper c) :: nat) = of_char (toupper d)"
    unfolding of_char_tolower of_char_toupper by (rule case_fold_nat)
  also have "\<dots> \<longleftrightarrow> toupper c = toupper d"
    by (simp only: of_char_eq_iff)
  finally show ?thesis .
qed

lemma ci_equal_iff: "ci_equal a b \<longleftrightarrow> map toupper a = map toupper b"
  unfolding ci_equal_def
proof (induction a arbitrary: b)
  case Nil
  then show ?case by auto
next
  case (Cons x a)
  then show ?case by (cases b) (auto simp: tolower_eq_iff)
qed

lemma toupper_candidates:
  "map toupper ''TRACE'' = ''TRACE''" "map toupper ''DEBUG'' = ''DEBUG''"
  "map toupper ''INFO'' = ''INFO''" "map toupper ''WARN'' = ''WARN''"
  "map toupper ''WARNING'' = ''WARNING''" "map toupper ''ERROR'' = ''ERROR''"
  "map toupper ''FATAL'' = ''FATAL''"
  by (simp_all add: toupper_def)

lemma match_levels_member:
  "match_levels u ls =
     (if u \<in> set ls then Some (if u = ''WARNING'' then ''WARN'' else u) else None)"
  by (induction ls) simp_all

lemma ci_equal_candidate:
  "l \<in> set candidates \<Longrightarrow> ci_equal t l \<longleftrightarrow> map toupper t = l"
  unfolding ci_equal_iff candidates_def using toupper_candidates by auto

lemma is_level_token_iff: "is_level_token t \<longleftrightarrow> map toupper t \<in> set levels"
proof -
  have "is_level_token t \<longleftrightarrow> (\<exists>l \<in> set candidates. ci_equal t l)"
    by (simp only: is_level_token_def list_ex_iff)
  also have "\<dots> \<longleftrightarrow> (\<exists>l \<in> set candidates. map toupper t = l)"
    using ci_equal_candidate by blast
  also have "\<dots> \<longleftrightarrow> map toupper t \<in> set candidates"
    by blast
  also have "candidates = levels"
    by (simp only: candidates_def levels_def)
  finally show ?thesis .
qed

lemma match_levels_eq:
  "match_levels (map toupper t) levels =
     (if is_level_token t
      then Some (if ci_equal t ''WARNING'' then ''WARN'' else map toupper t)
      else None)"
proof -
  have "''WARNING'' \<in> set candidates"
    by (simp add: candidates_def)
  then have "ci_equal t ''WARNING'' \<longleftrightarrow> map toupper t = ''WARNING''"
    by (rule ci_equal_candidate)
  then show ?thesis
    by (simp only: match_levels_member is_level_token_iff)
qed

lemma split_on_unfold:
  "split_on p s = takeWhile (\<lambda>c. \<not> p c) s #
     (case dropWhile (\<lambda>c. \<not> p c) s of [] \<Rightarrow> [] | c # rest \<Rightarrow> split_on p rest)"
  by (induction s) (auto simp: Let_def)

lemma tokens_space: "isspace c \<Longrightarrow> tokens (c # cs) = tokens cs"
  by (simp add: tokens_def)

lemma tokens_dropWhile: "tokens (dropWhile isspace s) = tokens s"
  by (induction s) (auto simp: tokens_space)

lemma tokens_Nil: "tokens [] = []"
  by (simp add: tokens_def)

lemma tokens_word:
  assumes "s \<noteq> []" and "\<not> isspace (hd s)"
  shows "tokens s = takeWhile (\<lambda>c. \<not> isspace c) s # tokens (dropWhile (\<lambda>c. \<not> isspace c) s)"
proof -
  from assms have tw: "takeWhile (\<lambda>c. \<not> isspace c) s \<noteq> []"
    by (cases s) auto
  show ?thesis
  proof (cases "dropWhile (\<lambda>c. \<not> isspace c) s")
    case Nil
    have "split_on isspace s = [takeWhile (\<lambda>c. \<not> isspace c) s]"
      by (subst split_on_unfold) (simp only: Nil list.case)
    with tw show ?thesis
      by (simp only: tokens_def Nil filter.simps split_on.simps if_True if_False simp_thms)
  next
    case (Cons d rest)
    then have "isspace d"
      using hd_dropWhile [of "\<lambda>c. \<not> isspace c" s] by auto
    then have "tokens (d # rest) = tokens rest"
      by (rule tokens_space)
    moreover have "split_on isspace s = takeWhile (\<lambda>c. \<not> isspace c) s # split_on isspace rest"
      by (subst split_on_unfold) (simp only: Cons list.case)
    ultimately show ?thesis
      using tw by (simp add: tokens_def Cons)
  qed
qed

lemma read_token_None: "read_token inp = None \<Longrightarrow> tokens inp = []"
proof -
  assume "read_token inp = None"
  then have "dropWhile isspace inp = []"
    by (simp add: read_token_def Let_def split: if_splits)
  then have "tokens (dropWhile isspace inp) = []"
    by (simp only: tokens_Nil)
  then show ?thesis by (simp only: tokens_dropWhile)
qed

lemma read_token_Some:
  assumes "read_token inp = Some (token, rest)"
  shows "tokens inp = token # tokens rest"
proof -
  define s where "s = dropWhile isspace inp"
  from assms have ne: "s \<noteq> []" and tok: "token = takeWhile (\<lambda>c. \<not> isspace c) s"
    and rest: "rest = dropWhile (\<lambda>c. \<not> isspace c) s"
    by (auto simp: read_token_def Let_def s_def split: if_splits)
  from ne have "\<not> isspace (hd s)"
    unfolding s_def by (rule hd_dropWhile)
  with ne have "tokens s = token # tokens rest"
    unfolding tok rest by (rule tokens_word)
  then show ?thesis by (simp add: s_def tokens_dropWhile)
qed

lemma scan_tokens_eq: "scan_tokens inp = level_of_tokens (tokens inp)"
proof (induction inp rule: scan_tokens.induct)
  case (1 inp)
  show ?case
  proof (cases "read_token inp")
    case None
    then show ?thesis
      by (subst scan_tokens.simps) (simp add: read_token_None level_of_tokens_def)
  next
    case (Some p)
    obtain token rest where p: "p = (token, rest)" by (cases p)
    with Some have rt: "read_token inp = Some (token, rest)" by simp
    then have toks: "tokens inp = token # tokens rest" by (rule read_token_Some)
    show ?thesis
    proof (cases "is_level_token token")
      case True
      with rt toks show ?thesis
        by (subst scan_tokens.simps) (simp add: match_levels_eq level_of_tokens_def)
    next
      case False
      then have ml: "match_levels (map toupper token) levels = None"
        by (simp add: match_levels_eq)
      have "scan_tokens rest = level_of_tokens (tokens rest)"
        using "1.IH" [OF rt refl refl ml] .
      with rt toks False ml show ?thesis
        by (subst scan_tokens.simps) (simp add: level_of_tokens_def)
    qed
  qed
qed

lemma split_on_not_Nil: "split_on p s \<noteq> []"
  by (induction s) (auto simp: Let_def)

lemma split_on_pieces: "t \<in> set (split_on p s) \<Longrightarrow> c \<in> set t \<Longrightarrow> \<not> p c"
proof (induction s arbitrary: t)
  case Nil
  then show ?case by simp
next
  case (Cons a s)
  show ?case
  proof (cases "p a")
    case True
    with Cons show ?thesis by auto
  next
    case False
    have ne: "split_on p s \<noteq> []" by (rule split_on_not_Nil)
    from Cons.prems(1) False have "t = a # hd (split_on p s) \<or> t \<in> set (tl (split_on p s))"
      by (simp add: Let_def)
    then show ?thesis
    proof
      assume "t = a # hd (split_on p s)"
      with Cons.prems(2) have "c = a \<or> c \<in> set (hd (split_on p s))" by simp
      with False Cons.IH [of "hd (split_on p s)"] ne show ?thesis by auto
    next
      assume "t \<in> set (tl (split_on p s))"
      then have "t \<in> set (split_on p s)" by (rule list.set_sel(2) [OF ne])
      with Cons.IH Cons.prems(2) show ?thesis by blast
    qed
  qed
qed

lemma concat_split_on: "concat (split_on p s) = filter (\<lambda>c. \<not> p c) s"
proof (induction s)
  case Nil
  then show ?case by simp
next
  case (Cons a s)
  have "split_on p s = hd (split_on p s) # tl (split_on p s)"
    using split_on_not_Nil [of p s] by simp
  then have "concat (split_on p s) = hd (split_on p s) @ concat (tl (split_on p s))"
    by (metis concat.simps(2))
  with Cons show ?case by (simp add: Let_def)
qed

text \<open>The tokens are non-empty, contain no whitespace, and together are the line
  without its whitespace.\<close>

lemma tokens_pieces: "t \<in> set (tokens s) \<Longrightarrow> t \<noteq> [] \<and> (\<forall>c \<in> set t. \<not> isspace c)"
  using split_on_pieces [of t isspace s] by (auto simp: tokens_def)

lemma concat_tokens: "concat (tokens s) = filter (\<lambda>c. \<not> isspace c) s"
proof -
  have "concat (filter (\<lambda>t. t \<noteq> []) xs) = concat xs" for xs :: "string list"
    by (induction xs) simp_all
  then show ?thesis
    by (simp add: tokens_def concat_split_on)
qed

lemma tokens_example: "tokens (''  ab  cd'' @ [CHR 0x09] @ ''e '') = [''ab'', ''cd'', ''e'']"
  by code_simp

text \<open>
  Claim C1. For every line, \<open>extract_level\<close> returns the upper-case form of the first
  whitespace-delimited token, from left to right, that equals one of TRACE, DEBUG, INFO,
  WARN, WARNING, ERROR, FATAL without regard to case, with WARNING turned into WARN; when
  no token matches it returns UNKNOWN.
\<close>

theorem extract_level_first_matching_token:
  "extract_level line =
     (case find is_level_token (tokens line) of
        None \<Rightarrow> ''UNKNOWN''
      | Some t \<Rightarrow> if ci_equal t ''WARNING'' then ''WARN'' else map toupper t)"
  by (simp add: extract_level_def scan_tokens_eq level_of_tokens_def)

text \<open>The example of the specification, through the theorem.\<close>

theorem extract_level_first_matching_token_witness:
  "extract_level ''2026-01-15 10:03:21 INFO AuthService - User login ok'' = ''INFO''
   \<and> extract_level ''10:03:22 Warning Billing - Slow query'' = ''WARN''
   \<and> extract_level ''plain text line'' = ''UNKNOWN''"
proof -
  have "(case find is_level_token (tokens ''2026-01-15 10:03:21 INFO AuthService - User login ok'') of
           None \<Rightarrow> ''UNKNOWN''
         | Some t \<Rightarrow> if ci_equal t ''WARNING'' then ''WARN'' else map toupper t) = ''INFO''"
    by code_simp
  moreover have "(case find is_level_token (tokens ''10:03:22 Warning Billing - Slow query'') of
           None \<Rightarrow> ''UNKNOWN''
         | Some t \<Rightarrow> if ci_equal t ''WARNING'' then ''WARN'' else map toupper t) = ''WARN''"
    by code_simp
  moreover have "(case find is_level_token (tokens ''plain text line'') of
           None \<Rightarrow> ''UNKNOWN''
         | Some t \<Rightarrow> if ci_equal t ''WARNING'' then ''WARN'' else map toupper t) = ''UNKNOWN''"
    by code_simp
  ultimately show ?thesis
    by (simp only: extract_level_first_matching_token)
qed

section \<open>Message extraction\<close>

lemma trim_start_eq:
  "start \<le> length s \<Longrightarrow> trim_start s start = start + length (takeWhile isspace (drop start s))"
proof (induction s start rule: trim_start.induct)
  case (1 s start)
  show ?case
  proof (cases "start < length s \<and> isspace (s ! start)")
    case True
    then have d: "drop start s = s ! start # drop (Suc start) s"
      by (simp add: Cons_nth_drop_Suc)
    from True "1.IH" have "trim_start s (start + 1) = start + 1 + length (takeWhile isspace (drop (start + 1) s))"
      by simp
    with True d show ?thesis
      by (subst trim_start.simps) simp
  next
    case False
    show ?thesis
    proof (cases "start < length s")
      case True
      with False have "\<not> isspace (s ! start)" by simp
      moreover from True have "drop start s = s ! start # drop (Suc start) s"
        by (simp add: Cons_nth_drop_Suc)
      ultimately show ?thesis
        using False by (subst trim_start.simps) simp
    next
      case False
      then show ?thesis
        by (subst trim_start.simps) simp
    qed
  qed
qed

lemma trim_end_eq:
  "start \<le> e \<Longrightarrow> e \<le> length s \<Longrightarrow>
   trim_end s start e = start + length (dropWhile isspace (rev (take (e - start) (drop start s))))"
proof (induction s start e rule: trim_end.induct)
  case (1 s start e)
  show ?case
  proof (cases "e > start")
    case False
    with "1.prems" show ?thesis
      by (subst trim_end.simps) simp
  next
    case True
    define n where "n = e - start - 1"
    from True have en: "e - start = Suc n" by (simp add: n_def)
    from True "1.prems" have idx: "start + n < length s" and e1: "e - 1 = start + n"
      by (simp_all add: n_def)
    have tk: "take (Suc n) (drop start s) = take n (drop start s) @ [s ! (e - 1)]"
      using idx e1 by (simp add: take_Suc_conv_app_nth)
    show ?thesis
    proof (cases "isspace (s ! (e - 1))")
      case sp: True
      from True "1.prems" have "start \<le> e - 1" "e - 1 \<le> length s" by simp_all
      with "1.IH" True sp have "trim_end s start (e - 1) =
          start + length (dropWhile isspace (rev (take (e - 1 - start) (drop start s))))"
        by simp
      moreover have "e - 1 - start = n" by (simp add: n_def)
      ultimately show ?thesis
        using True sp by (subst trim_end.simps) (simp add: en tk)
    next
      case nsp: False
      have "rev (take (e - start) (drop start s)) = s ! (e - 1) # rev (take n (drop start s))"
        by (simp add: en tk)
      with nsp have "dropWhile isspace (rev (take (e - start) (drop start s))) =
          s ! (e - 1) # rev (take n (drop start s))"
        by simp
      then have "length (dropWhile isspace (rev (take (e - start) (drop start s)))) = Suc n"
        using idx by simp
      moreover have "start + Suc n = e"
        using True by (simp add: n_def)
      moreover have "trim_end s start e = e"
        using nsp by (subst trim_end.simps) simp
      ultimately show ?thesis by simp
    qed
  qed
qed

lemma take_length_rev_dropWhile:
  "take (length (dropWhile P (rev t))) t = rev (dropWhile P (rev t))"
proof -
  have "rev t = takeWhile P (rev t) @ dropWhile P (rev t)" by simp
  then have "rev (rev t) = rev (takeWhile P (rev t) @ dropWhile P (rev t))" by (rule arg_cong)
  then have "t = rev (dropWhile P (rev t)) @ rev (takeWhile P (rev t))"
    by (simp only: rev_rev_ident rev_append)
  then have "take (length (dropWhile P (rev t))) t =
      take (length (dropWhile P (rev t))) (rev (dropWhile P (rev t)) @ rev (takeWhile P (rev t)))"
    by (rule arg_cong)
  then show ?thesis by simp
qed

lemma trim_eq_strip: "trim s = strip s"
proof -
  define start where "start = trim_start s 0"
  have st: "start = length (takeWhile isspace s)"
    by (simp add: start_def trim_start_eq)
  then have le: "start \<le> length s"
    by (simp add: length_takeWhile_le)
  have dr: "drop start s = dropWhile isspace s"
    unfolding st by (rule dropWhile_eq_drop [symmetric])
  have "trim_end s start (length s) =
      start + length (dropWhile isspace (rev (take (length s - start) (drop start s))))"
    using le by (rule trim_end_eq) simp
  moreover have "take (length s - start) (drop start s) = drop start s"
    by simp
  ultimately have "trim_end s start (length s) - start = length (dropWhile isspace (rev (dropWhile isspace s)))"
    by (simp only: dr diff_add_inverse)
  then show ?thesis
    by (simp add: trim_def Let_def start_def [symmetric] substr_def dr strip_def take_length_rev_dropWhile)
qed

lemma find_from_first:
  assumes "marker \<noteq> []" and "\<not> sublist marker (pre @ butlast marker)"
  shows "find_from marker (pre @ marker @ post) pos = Some (pos + length pre)"
  using assms(2)
proof (induction pre arbitrary: pos)
  case Nil
  from assms(1) obtain c cs where "marker @ post = c # cs"
    by (cases marker) auto
  moreover have "take (length marker) (marker @ post) = marker" by simp
  ultimately show ?case by (metis add.right_neutral append_Nil find_from.simps(2) list.size(3))
next
  case (Cons a pre)
  have ns: "\<not> sublist marker (pre @ butlast marker)"
    using Cons.prems by (auto simp: sublist_Cons_right)
  have "take (length marker) (a # pre @ marker @ post) \<noteq> marker"
  proof
    assume eq: "take (length marker) (a # pre @ marker @ post) = marker"
    have len: "length marker \<le> length ((a # pre) @ butlast marker)"
      by simp
    have "a # pre @ marker @ post = ((a # pre) @ butlast marker) @ (last marker # post)"
      using assms(1) by (simp add: append_butlast_last_id [symmetric] del: append_butlast_last_id)
    then have "take (length marker) (a # pre @ marker @ post) =
        take (length marker) ((a # pre) @ butlast marker)"
      using len by (metis append_eq_conv_conj append_take_drop_id take_append take_all_iff diff_is_0_eq take_0 append_Nil2)
    with eq have "prefix marker ((a # pre) @ butlast marker)"
      by (metis take_is_prefix)
    then have "sublist marker ((a # pre) @ butlast marker)"
      by (rule prefix_imp_sublist)
    with Cons.prems show False by simp
  qed
  then show ?case
    using Cons.IH [OF ns, of "pos + 1"] by simp
qed

lemma find_from_None: "find_from marker s pos = None \<longleftrightarrow> \<not> sublist marker s"
proof (induction s arbitrary: pos)
  case Nil
  then show ?case by auto
next
  case (Cons c cs)
  have "prefix marker (c # cs) \<longleftrightarrow> take (length marker) (c # cs) = marker"
    by (metis prefix_def append_eq_conv_conj take_is_prefix)
  then show ?case
    using Cons.IH [of "pos + 1"] by (auto simp: sublist_Cons_right)
qed

lemma first_occurrence_iff:
  assumes "marker \<noteq> []"
  shows "(\<forall>p q. pre @ marker @ post = p @ marker @ q \<longrightarrow> length pre \<le> length p)
    \<longleftrightarrow> \<not> sublist marker (pre @ butlast marker)"
proof
  assume least: "\<forall>p q. pre @ marker @ post = p @ marker @ q \<longrightarrow> length pre \<le> length p"
  show "\<not> sublist marker (pre @ butlast marker)"
  proof
    assume "sublist marker (pre @ butlast marker)"
    then obtain p r where pr: "pre @ butlast marker = p @ marker @ r"
      by (auto simp: sublist_def)
    have "pre @ marker @ post = (pre @ butlast marker) @ last marker # post"
      using assms by (simp add: append_butlast_last_id [symmetric] del: append_butlast_last_id)
    then have "pre @ marker @ post = p @ marker @ (r @ last marker # post)"
      by (simp only: pr append_assoc)
    with least have "length pre \<le> length p" by blast
    moreover from pr have "length (pre @ butlast marker) = length (p @ marker @ r)"
      by (rule arg_cong)
    moreover from assms obtain k where "length marker = Suc k"
      by (cases marker) simp_all
    ultimately show False by simp
  qed
next
  assume ns: "\<not> sublist marker (pre @ butlast marker)"
  show "\<forall>p q. pre @ marker @ post = p @ marker @ q \<longrightarrow> length pre \<le> length p"
  proof (intro allI impI, rule ccontr)
    fix p q
    assume eq: "pre @ marker @ post = p @ marker @ q" and "\<not> length pre \<le> length p"
    then have lt: "length p < length pre" by simp
    have "pre @ marker @ post = (pre @ butlast marker) @ last marker # post"
      using assms by (simp add: append_butlast_last_id [symmetric] del: append_butlast_last_id)
    then have "prefix (pre @ butlast marker) (pre @ marker @ post)"
      by (rule prefixI)
    moreover have "prefix (p @ marker) (pre @ marker @ post)"
      unfolding eq by (rule prefixI) simp
    moreover have "length (p @ marker) \<le> length (pre @ butlast marker)"
      using lt by simp
    ultimately have "prefix (p @ marker) (pre @ butlast marker)"
      using prefix_length_prefix [of "p @ marker" "pre @ marker @ post" "pre @ butlast marker"]
      by blast
    then have "sublist marker (pre @ butlast marker)"
      by (auto simp: sublist_def prefix_def)
    with ns show False by simp
  qed
qed

text \<open>
  Claim C2. When \<open>" - "\<close> occurs in the line, \<open>extract_message\<close> returns what follows
  its first occurrence, with leading and trailing whitespace stripped: \<open>pre\<close> is the
  part of the line before that occurrence, no occurrence starts earlier. When \<open>" - "\<close>
  does not occur, it returns the whole line stripped.
\<close>

theorem extract_message_after_first_separator:
  "(line = pre @ '' - '' @ post
      \<and> (\<forall>p q. line = p @ '' - '' @ q \<longrightarrow> length pre \<le> length p)
      \<longrightarrow> extract_message line = strip post)
   \<and> ((\<nexists>p q. line = p @ '' - '' @ q) \<longrightarrow> extract_message line = strip line)"
proof (intro conjI impI)
  assume a: "line = pre @ '' - '' @ post
      \<and> (\<forall>p q. line = p @ '' - '' @ q \<longrightarrow> length pre \<le> length p)"
  then have "\<forall>p q. pre @ '' - '' @ post = p @ '' - '' @ q \<longrightarrow> length pre \<le> length p"
    by blast
  then have "\<not> sublist '' - '' (pre @ butlast '' - '')"
    by (subst (asm) first_occurrence_iff) simp_all
  then have "find_from '' - '' (pre @ '' - '' @ post) 0 = Some (0 + length pre)"
    by (intro find_from_first) simp_all
  with a show "extract_message line = strip post"
    by (simp add: extract_message_def trim_eq_strip)
next
  assume "\<nexists>p q. line = p @ '' - '' @ q"
  then have "\<not> sublist '' - '' line"
    by (simp add: sublist_def)
  then have "find_from '' - '' line 0 = None"
    using find_from_None by blast
  then show "extract_message line = strip line"
    by (simp add: extract_message_def trim_eq_strip)
qed

theorem extract_message_after_first_separator_witness:
  "extract_message ''2026-01-15 10:03:21 INFO AuthService - User login ok - again  '' = ''User login ok - again''
   \<and> extract_message ''  plain text line '' = ''plain text line''"
proof -
  let ?pre = "''2026-01-15 10:03:21 INFO AuthService''"
  let ?post = "''User login ok - again  ''"
  let ?line = "''2026-01-15 10:03:21 INFO AuthService - User login ok - again  ''"
  have split: "?line = ?pre @ '' - '' @ ?post"
    by simp
  have "\<not> sublist '' - '' (?pre @ butlast '' - '')"
    by code_simp
  then have "\<forall>p q. ?pre @ '' - '' @ ?post = p @ '' - '' @ q \<longrightarrow> length ?pre \<le> length p"
    by (subst first_occurrence_iff) simp_all
  then have least: "\<forall>p q. ?line = p @ '' - '' @ q \<longrightarrow> length ?pre \<le> length p"
    by (simp only: split)
  have "\<not> sublist '' - '' ''  plain text line ''"
    by code_simp
  then have none: "\<nexists>p q. ''  plain text line '' = p @ '' - '' @ q"
    by (simp add: sublist_def)
  have first: "extract_message ?line = strip ?post"
    by (rule extract_message_after_first_separator [of ?line ?pre ?post, THEN conjunct1, THEN mp])
      (intro conjI split least)
  have second: "extract_message ''  plain text line '' = strip ''  plain text line ''"
    by (rule extract_message_after_first_separator [of "''  plain text line ''", THEN conjunct2, THEN mp])
      (rule none)
  have "strip ?post = ''User login ok - again''"
    by code_simp
  moreover have "strip ''  plain text line '' = ''plain text line''"
    by code_simp
  ultimately show ?thesis
    by (simp only: first second)
qed

section \<open>The processing pass\<close>

lemma file_lines_Nil: "file_lines [] = []"
  by (simp add: file_lines_def)

lemma file_lines_getline:
  assumes "getline inp = Some (line, rest)"
  shows "file_lines inp = line # file_lines rest"
proof -
  let ?nl = "\<lambda>c. c = newline"
  from assms have ne: "inp \<noteq> []" and line: "line = takeWhile (\<lambda>c. c \<noteq> newline) inp"
    and rest: "rest = drop 1 (dropWhile (\<lambda>c. c \<noteq> newline) inp)"
    by (auto simp: getline_def split: if_splits)
  show ?thesis
  proof (cases "dropWhile (\<lambda>c. c \<noteq> newline) inp")
    case Nil
    have tw: "takeWhile (\<lambda>c. c \<noteq> newline) inp = inp"
      using takeWhile_dropWhile_id [of "\<lambda>c. c \<noteq> newline" inp] by (simp only: Nil append_Nil2)
    have sp: "split_on ?nl inp = [inp]"
      by (subst split_on_unfold) (simp only: Nil list.case tw)
    have l: "line = inp" by (simp only: line tw)
    have r: "rest = []" by (simp only: rest Nil drop_Nil)
    show ?thesis
      using ne by (simp add: file_lines_def sp l r)
  next
    case (Cons d ds)
    have sp: "split_on ?nl inp = line # split_on ?nl ds"
      by (subst split_on_unfold) (simp only: Cons list.case line)
    from Cons have "rest = ds" by (simp only: rest drop_Suc_Cons One_nat_def drop_0)
    then show ?thesis
      by (simp add: file_lines_def Let_def sp split_on_not_Nil)
  qed
qed

lemma read_loop_eq:
  "read_loop inp stats = foldl (\<lambda>s l. process_line l s) stats (file_lines inp)"
proof (induction inp stats rule: read_loop.induct)
  case (1 inp stats)
  show ?case
  proof (cases "getline inp")
    case None
    then have "inp = []" by (simp add: getline_def split: if_splits)
    with None show ?thesis
      by (subst read_loop.simps) (simp add: file_lines_Nil)
  next
    case (Some p)
    obtain line rest where p: "p = (line, rest)" by (cases p)
    with Some have g: "getline inp = Some (line, rest)" by simp
    have "read_loop rest (process_line line stats) =
        foldl (\<lambda>s l. process_line l s) (process_line line stats) (file_lines rest)"
      using "1.IH" [OF g refl] .
    with g show ?thesis
      by (subst read_loop.simps) (simp add: file_lines_getline [OF g])
  qed
qed

lemma dom_incr: "dom (incr m k) = insert k (dom m)"
  by (simp add: incr_def)

lemma sum_values_incr:
  assumes "finite (dom m)"
  shows "sum_values (incr m k) = sum_values m + 1"
proof (cases "m k")
  case None
  then have nk: "k \<notin> dom m" by (simp add: domIff)
  have "sum_values (incr m k) = the (incr m k k) + (\<Sum>x \<in> dom m. the (incr m k x))"
    unfolding sum_values_def dom_incr using assms nk by (rule sum.insert)
  also have "(\<Sum>x \<in> dom m. the (incr m k x)) = (\<Sum>x \<in> dom m. the (m x))"
    using nk by (intro sum.cong refl) (auto simp: incr_def)
  also have "the (incr m k k) = 1"
    using None by (simp add: incr_def)
  finally show ?thesis by (simp add: sum_values_def)
next
  case (Some v)
  then have ik: "k \<in> dom m" by (simp add: domIff)
  then have d: "insert k (dom m) = dom m" by (rule insert_absorb)
  have "sum_values (incr m k) = the (incr m k k) + (\<Sum>x \<in> dom m - {k}. the (incr m k x))"
    unfolding sum_values_def dom_incr d using assms ik by (rule sum.remove)
  also have "(\<Sum>x \<in> dom m - {k}. the (incr m k x)) = (\<Sum>x \<in> dom m - {k}. the (m x))"
    by (intro sum.cong refl) (auto simp: incr_def)
  also have "the (incr m k k) = the (m k) + 1"
    using Some by (simp add: incr_def)
  finally have "sum_values (incr m k) = (the (m k) + (\<Sum>x \<in> dom m - {k}. the (m x))) + 1"
    by simp
  also have "the (m k) + (\<Sum>x \<in> dom m - {k}. the (m x)) = sum_values m"
    unfolding sum_values_def using assms ik by (rule sum.remove [symmetric])
  finally show ?thesis .
qed

lemma process_line_total: "total_lines (process_line l st) = total_lines st + 1"
  by (simp add: process_line_def Let_def)

lemma process_line_levels:
  "level_counts (process_line l st) = incr (level_counts st) (extract_level l)"
  by (simp add: process_line_def Let_def)

lemma process_line_messages:
  "message_counts (process_line l st) =
     (if extract_message l \<noteq> [] then incr (message_counts st) (extract_message l)
      else message_counts st)"
  by (simp add: process_line_def Let_def)

lemma fold_total:
  "total_lines (foldl (\<lambda>s l. process_line l s) st ls) = total_lines st + int (length ls)"
  by (induction ls arbitrary: st) (simp_all add: process_line_total)

lemma fold_levels_finite:
  "finite (dom (level_counts st)) \<Longrightarrow>
   finite (dom (level_counts (foldl (\<lambda>s l. process_line l s) st ls)))"
  by (induction ls arbitrary: st) (simp_all add: process_line_levels dom_incr)

lemma fold_levels_sum:
  "finite (dom (level_counts st)) \<Longrightarrow>
   sum_values (level_counts (foldl (\<lambda>s l. process_line l s) st ls))
     = sum_values (level_counts st) + int (length ls)"
proof (induction ls arbitrary: st)
  case Nil
  then show ?case by simp
next
  case (Cons l ls)
  have fin: "finite (dom (level_counts (process_line l st)))"
    using Cons.prems by (simp add: process_line_levels dom_incr)
  have "sum_values (level_counts (process_line l st)) = sum_values (level_counts st) + 1"
    using Cons.prems by (simp add: process_line_levels sum_values_incr)
  with Cons.IH [OF fin] show ?case by simp
qed

lemma fold_messages_finite:
  "finite (dom (message_counts st)) \<Longrightarrow>
   finite (dom (message_counts (foldl (\<lambda>s l. process_line l s) st ls)))"
  by (induction ls arbitrary: st) (simp_all add: process_line_messages dom_incr)

lemma fold_messages_sum:
  "finite (dom (message_counts st)) \<Longrightarrow>
   sum_values (message_counts (foldl (\<lambda>s l. process_line l s) st ls))
     = sum_values (message_counts st) + int (length (filter (\<lambda>l. extract_message l \<noteq> []) ls))"
proof (induction ls arbitrary: st)
  case Nil
  then show ?case by simp
next
  case (Cons l ls)
  have fin: "finite (dom (message_counts (process_line l st)))"
    using Cons.prems by (simp add: process_line_messages dom_incr)
  have "sum_values (message_counts (process_line l st)) =
      sum_values (message_counts st) + (if extract_message l \<noteq> [] then 1 else 0)"
    using Cons.prems by (simp add: process_line_messages sum_values_incr)
  with Cons.IH [OF fin] show ?case by simp
qed

lemma fold_messages_entry:
  "message_counts (foldl (\<lambda>s l. process_line l s) st ls) k =
     (if k \<noteq> [] \<and> 0 < occurrences k ls
      then Some ((case message_counts st k of None \<Rightarrow> 0 | Some v \<Rightarrow> v) + int (occurrences k ls))
      else message_counts st k)"
proof (induction ls arbitrary: st)
  case Nil
  then show ?case by (simp add: occurrences_def)
next
  case (Cons l ls)
  have step: "message_counts (process_line l st) k =
      (if extract_message l = k \<and> k \<noteq> []
       then Some ((case message_counts st k of None \<Rightarrow> 0 | Some v \<Rightarrow> v) + 1)
       else message_counts st k)"
    by (auto simp: process_line_messages incr_def)
  show ?case
    unfolding foldl_Cons Cons.IH step
    by (auto simp: occurrences_def)
qed

lemma sum_values_empty: "sum_values Map.empty = 0"
  by (simp add: sum_values_def)

text \<open>
  Claim C4. For every file that can be opened, the processing pass ends with
  \<open>total_lines\<close> equal to the number of lines of the file, blank lines included, and
  with the values of \<open>level_counts\<close> adding up to \<open>total_lines\<close>.
\<close>

theorem process_file_line_totals:
  assumes "fs filepath = Some content"
  shows "\<exists>stats. process_file fs filepath init_stats = Some stats
           \<and> total_lines stats = int (length (file_lines content))
           \<and> sum_values (level_counts stats) = total_lines stats"
proof -
  let ?st = "foldl (\<lambda>s l. process_line l s) init_stats (file_lines content)"
  have "process_file fs filepath init_stats = Some ?st"
    using assms by (simp add: process_file_def read_loop_eq)
  moreover have "total_lines ?st = int (length (file_lines content))"
    by (simp add: fold_total init_stats_def)
  moreover have "sum_values (level_counts ?st) = int (length (file_lines content))"
    by (simp add: fold_levels_sum init_stats_def sum_values_empty)
  ultimately show ?thesis by simp
qed

text \<open>
  Claim C5. For every file that can be opened, the values of \<open>message_counts\<close> add up
  to the number of lines whose extracted message is not empty. Every entry is a
  non-empty message with the number of lines that carry it, at least one; the empty
  message has no entry.
\<close>

theorem process_file_message_totals:
  assumes "fs filepath = Some content"
  shows "\<exists>stats. process_file fs filepath init_stats = Some stats
           \<and> sum_values (message_counts stats)
               = int (length (filter (\<lambda>l. extract_message l \<noteq> []) (file_lines content)))
           \<and> (\<forall>k. message_counts stats k =
                 (if k \<noteq> [] \<and> 0 < occurrences k (file_lines content)
                  then Some (int (occurrences k (file_lines content))) else None))"
proof -
  let ?st = "foldl (\<lambda>s l. process_line l s) init_stats (file_lines content)"
  have "process_file fs filepath init_stats = Some ?st"
    using assms by (simp add: process_file_def read_loop_eq)
  moreover have "sum_values (message_counts ?st)
      = int (length (filter (\<lambda>l. extract_message l \<noteq> []) (file_lines content)))"
    by (simp add: fold_messages_sum init_stats_def sum_values_empty)
  moreover have "message_counts ?st k =
      (if k \<noteq> [] \<and> 0 < occurrences k (file_lines content)
       then Some (int (occurrences k (file_lines content))) else None)" for k
    by (simp add: fold_messages_entry init_stats_def)
  ultimately show ?thesis by simp
qed

text \<open>The number of lines in terms of the newlines of the content: a last line
  without a final newline counts, and so does every blank line.\<close>

lemma length_file_lines:
  "length (file_lines content) =
     count_list content newline + (if content \<noteq> [] \<and> last content \<noteq> newline then 1 else 0)"
proof (induction content rule: length_induct)
  case (1 content)
  show ?case
  proof (cases "content = []")
    case True
    then show ?thesis by (simp add: file_lines_Nil)
  next
    case ne: False
    define line where "line = takeWhile (\<lambda>c. c \<noteq> newline) content"
    define rest where "rest = drop 1 (dropWhile (\<lambda>c. c \<noteq> newline) content)"
    have g: "getline content = Some (line, rest)"
      using ne by (simp add: getline_def line_def rest_def)
    then have fl: "file_lines content = line # file_lines rest"
      by (rule file_lines_getline)
    have nl: "count_list line newline = 0"
      unfolding line_def by (auto simp: count_list_0_iff dest: set_takeWhileD)
    have split: "content = line @ dropWhile (\<lambda>c. c \<noteq> newline) content"
      by (simp add: line_def)
    show ?thesis
    proof (cases "dropWhile (\<lambda>c. c \<noteq> newline) content")
      case Nil
      have c: "content = line"
        using split unfolding Nil append_Nil2 .
      have "rest = []" by (simp only: rest_def Nil drop_Nil)
      then have len: "length (file_lines content) = 1"
        by (simp add: fl file_lines_Nil)
      have cnt: "count_list content newline = 0"
        by (subst c) (rule nl)
      then have "last content \<noteq> newline"
        using ne by (metis count_list_0_iff last_in_set)
      then show ?thesis
        using ne by (simp only: len cnt) simp
    next
      case (Cons d ds)
      then have d: "d = newline"
        using hd_dropWhile [of "\<lambda>c. c \<noteq> newline" content] by auto
      have r: "rest = ds"
        by (simp only: rest_def Cons drop_Suc_Cons One_nat_def drop_0)
      have c: "content = line @ newline # ds"
        using split unfolding Cons d .
      have "length ds < length content"
        by (subst c) simp
      with "1.IH" have ih: "length (file_lines ds) =
          count_list ds newline + (if ds \<noteq> [] \<and> last ds \<noteq> newline then 1 else 0)"
        by blast
      have "count_list content newline = Suc (count_list ds newline)"
        by (subst c) (simp add: nl)
      moreover have "last content = (if ds = [] then newline else last ds)"
        by (subst c) simp
      ultimately show ?thesis
        using ne by (simp add: fl r ih)
    qed
  qed
qed


theorem process_file_line_totals_witness:
  "\<exists>stats. process_file
       (Map.empty(''app.log'' \<mapsto>
          ''10:03 INFO Auth - ok'' @ [newline] @ [newline] @ ''10:04 warning Billing - slow'' @ [newline]
          @ ''10:05 INFO Auth - ok'' @ [newline] @ ''plain text line''))
       ''app.log'' init_stats = Some stats
     \<and> total_lines stats = 5 \<and> sum_values (level_counts stats) = total_lines stats"
proof -
  let ?content = "''10:03 INFO Auth - ok'' @ [newline] @ [newline] @ ''10:04 warning Billing - slow'' @ [newline]
          @ ''10:05 INFO Auth - ok'' @ [newline] @ ''plain text line''"
  let ?fs = "Map.empty(''app.log'' \<mapsto> ?content)"
  have "?fs ''app.log'' = Some ?content" by simp
  then obtain stats where "process_file ?fs ''app.log'' init_stats = Some stats"
    and "total_lines stats = int (length (file_lines ?content))"
    and "sum_values (level_counts stats) = total_lines stats"
    using process_file_line_totals [of ?fs "''app.log''" ?content] by blast
  moreover have "length (file_lines ?content) = 5" by code_simp
  ultimately show ?thesis by simp
qed

theorem process_file_message_totals_witness:
  "\<exists>stats. process_file
       (Map.empty(''app.log'' \<mapsto>
          ''10:03 INFO Auth - ok'' @ [newline] @ [newline] @ ''10:04 warning Billing - slow'' @ [newline]
          @ ''10:05 INFO Auth - ok'' @ [newline] @ ''10:06 INFO Auth -  ''))
       ''app.log'' init_stats = Some stats
     \<and> sum_values (message_counts stats) = 3
     \<and> message_counts stats ''ok'' = Some 2
     \<and> message_counts stats ''slow'' = Some 1
     \<and> message_counts stats [] = None"
proof -
  let ?content = "''10:03 INFO Auth - ok'' @ [newline] @ [newline] @ ''10:04 warning Billing - slow'' @ [newline]
          @ ''10:05 INFO Auth - ok'' @ [newline] @ ''10:06 INFO Auth -  ''"
  let ?fs = "Map.empty(''app.log'' \<mapsto> ?content)"
  have "?fs ''app.log'' = Some ?content" by simp
  then obtain stats where pf: "process_file ?fs ''app.log'' init_stats = Some stats"
    and sm: "sum_values (message_counts stats)
               = int (length (filter (\<lambda>l. extract_message l \<noteq> []) (file_lines ?content)))"
    and en: "\<And>k. message_counts stats k =
                 (if k \<noteq> [] \<and> 0 < occurrences k (file_lines ?content)
                  then Some (int (occurrences k (file_lines ?content))) else None)"
    using process_file_message_totals [of ?fs "''app.log''" ?content] by blast
  have "length (filter (\<lambda>l. extract_message l \<noteq> []) (file_lines ?content)) = 3"
    by code_simp
  with sm have "sum_values (message_counts stats) = 3" by simp
  moreover have "occurrences ''ok'' (file_lines ?content) = 2" by code_simp
  with en [of "''ok''"] have "message_counts stats ''ok'' = Some 2" by simp
  moreover have "occurrences ''slow'' (file_lines ?content) = 1" by code_simp
  with en [of "''slow''"] have "message_counts stats ''slow'' = Some 1" by simp
  moreover from en [of "[]"] have "message_counts stats [] = None" by simp
  ultimately show ?thesis using pf by blast
qed

section \<open>The ranking of messages in the report\<close>

lemma size_as_int_small: "n < 2 ^ 31 \<Longrightarrow> size_as_int n = int n"
proof -
  assume "n < 2 ^ 31"
  then have "int n < 2 ^ 31" by (metis of_nat_less_iff of_nat_numeral of_nat_power)
  then have "signed_take_bit 31 (int n) = int n"
    by (intro signed_take_bit_int_eq_self) simp_all
  then show ?thesis
    by (simp add: size_as_int_def signed_of_nat)
qed

text \<open>The loop reads \<open>pairs[i]\<close> only for \<open>i < limit\<close>, and the limit never exceeds the
  size of \<open>pairs\<close>, also when the cast wraps around.\<close>

lemma size_as_int_le: "size_as_int n \<le> int n"
proof (cases "n < 2 ^ 31")
  case True
  then show ?thesis by (simp add: size_as_int_small)
next
  case False
  have "sint (word_of_nat n :: 32 word) < 2 ^ (LENGTH(32) - 1)"
    by (rule sint_lt)
  then have "size_as_int n < 2 ^ 31"
    by (simp add: size_as_int_def)
  moreover from False have "(2 :: nat) ^ 31 \<le> n"
    by simp
  then have "int (2 ^ 31) \<le> int n"
    by (simp only: of_nat_le_iff)
  then have "(2 :: int) ^ 31 \<le> int n"
    by simp
  ultimately show ?thesis by linarith
qed

lemma top_limit_le: "top_limit top_n pairs \<le> int (length pairs)"
  using size_as_int_le [of "length pairs"] by (simp add: top_limit_def)

lemma sort_cmp_iff: "sort_cmp a b \<longleftrightarrow> ranked_before a b"
  by (auto simp: sort_cmp_def ranked_before_def)

lemma ranked_before_irrefl: "\<not> ranked_before a a"
  by (simp add: ranked_before_def)

lemma ranked_before_asym: "ranked_before a b \<Longrightarrow> \<not> ranked_before b a"
  by (auto simp: ranked_before_def)

lemma ranked_before_trans: "ranked_before a b \<Longrightarrow> ranked_before b c \<Longrightarrow> ranked_before a c"
  by (auto simp: ranked_before_def)

lemma ranked_before_total: "a \<noteq> b \<Longrightarrow> ranked_before a b \<or> ranked_before b a"
  by (cases a; cases b) (auto simp: ranked_before_def)

lemma set_insert_pair: "set (insert_pair x ys) = insert x (set ys)"
  by (induction ys) auto

lemma mset_insert_pair: "mset (insert_pair x ys) = add_mset x (mset ys)"
  by (induction ys) auto

lemma sorted_insert_pair:
  "sorted_wrt ranked_before ys \<Longrightarrow> x \<notin> set ys \<Longrightarrow> sorted_wrt ranked_before (insert_pair x ys)"
proof (induction ys)
  case Nil
  then show ?case by simp
next
  case (Cons y ys)
  show ?case
  proof (cases "sort_cmp x y")
    case True
    then have xy: "ranked_before x y" by (simp add: sort_cmp_iff)
    then have "\<forall>z \<in> set ys. ranked_before x z"
      using Cons.prems(1) by (auto intro: ranked_before_trans)
    with xy True Cons.prems(1) show ?thesis by simp
  next
    case False
    moreover from Cons.prems(2) have "x \<noteq> y" by auto
    ultimately have "ranked_before y x"
      using ranked_before_total [of x y] by (simp add: sort_cmp_iff)
    with False Cons show ?thesis
      by (auto simp: set_insert_pair)
  qed
qed

lemma set_sort_pairs: "set (sort_pairs ps) = set ps"
  unfolding sort_pairs_def by (induction ps) (simp_all add: set_insert_pair)

lemma mset_sort_pairs: "mset (sort_pairs ps) = mset ps"
  unfolding sort_pairs_def by (induction ps) (simp_all add: mset_insert_pair)

lemma length_sort_pairs: "length (sort_pairs ps) = length ps"
  by (metis mset_sort_pairs size_mset)

lemma sorted_sort_pairs: "distinct ps \<Longrightarrow> sorted_wrt ranked_before (sort_pairs ps)"
proof (induction ps)
  case Nil
  then show ?case by (simp add: sort_pairs_def)
next
  case (Cons p ps)
  then have "sorted_wrt ranked_before (sort_pairs ps)" and "p \<notin> set (sort_pairs ps)"
    by (simp_all add: set_sort_pairs)
  then have "sorted_wrt ranked_before (insert_pair p (sort_pairs ps))"
    by (rule sorted_insert_pair)
  then show ?case by (simp add: sort_pairs_def)
qed

lemma ranking_unique:
  "sorted_wrt ranked_before xs \<Longrightarrow> sorted_wrt ranked_before ys \<Longrightarrow> set xs = set ys \<Longrightarrow> xs = ys"
proof (induction xs arbitrary: ys)
  case Nil
  then show ?case by simp
next
  case (Cons x xs)
  then obtain y ys' where ys: "ys = y # ys'" by (cases ys) auto
  have xy: "x = y"
  proof (rule ccontr)
    assume ne: "x \<noteq> y"
    with Cons.prems(3) ys have "x \<in> set ys'" and "y \<in> set xs" by auto
    with Cons.prems(1,2) ys have "ranked_before y x" and "ranked_before x y" by auto
    then show False using ranked_before_asym by blast
  qed
  have "x \<notin> set xs" using Cons.prems(1) by (auto simp: ranked_before_irrefl)
  moreover have "y \<notin> set ys'" using Cons.prems(2) ys by (auto simp: ranked_before_irrefl)
  ultimately have "set xs = set ys'"
    using Cons.prems(3) ys xy by auto
  with Cons.IH [of ys'] Cons.prems(1,2) ys have "xs = ys'" by simp
  with xy ys show ?case by simp
qed

text \<open>Whatever algorithm \<^verbatim>\<open>std::sort\<close> runs, its result is \<open>sort_pairs\<close>: a
  permutation in which no later element compares before an earlier one.\<close>

lemma sort_pairs_unique:
  assumes "distinct (map fst ps)" and "mset ys = mset ps"
    and "sorted_wrt (\<lambda>a b. \<not> sort_cmp b a) ys"
  shows "ys = sort_pairs ps"
proof -
  from assms(1) have dps: "distinct ps" by (rule distinct_map [THEN iffD1, THEN conjunct1])
  with assms(2) have dys: "distinct ys" by (metis mset_eq_imp_distinct_iff)
  from dys assms(3) have "sorted_wrt (\<lambda>a b. \<not> sort_cmp b a \<and> a \<noteq> b) ys"
    by (induction ys) auto
  then have "sorted_wrt ranked_before ys"
  proof (rule sorted_wrt_mono_rel [rotated])
    fix a b
    assume "\<not> sort_cmp b a \<and> a \<noteq> b"
    then show "ranked_before a b"
      using ranked_before_total [of a b] by (simp add: sort_cmp_iff)
  qed
  moreover have "sorted_wrt ranked_before (sort_pairs ps)"
    using dps by (rule sorted_sort_pairs)
  moreover have "set ys = set (sort_pairs ps)"
    using assms(2) by (metis set_sort_pairs mset_eq_setD)
  ultimately show ?thesis by (rule ranking_unique)
qed

lemma print_top_eq:
  "0 \<le> i \<Longrightarrow> limit \<le> int (length pairs) \<Longrightarrow>
   print_top pairs limit i =
     concat (map2 top_line [i + 1..limit] (take (nat (limit - i)) (drop (nat i) pairs)))"
proof (induction pairs limit i rule: print_top.induct)
  case (1 pairs limit i)
  show ?case
  proof (cases "i < limit")
    case True
    with "1.prems" have idx: "nat i < length pairs" by simp
    have up: "[i + 1..limit] = (i + 1) # [i + 1 + 1..limit]"
      using True by (simp add: upto_rec1)
    have "nat (limit - i) = Suc (nat (limit - (i + 1)))"
      using True by simp
    moreover have "drop (nat i) pairs = pairs ! nat i # drop (nat (i + 1)) pairs"
      using idx "1.prems"(1) by (simp add: Cons_nth_drop_Suc nat_add_distrib)
    ultimately have tk: "take (nat (limit - i)) (drop (nat i) pairs) =
        pairs ! nat i # take (nat (limit - (i + 1))) (drop (nat (i + 1)) pairs)"
      by simp
    have "print_top pairs limit (i + 1) =
        concat (map2 top_line [i + 1 + 1..limit] (take (nat (limit - (i + 1))) (drop (nat (i + 1)) pairs)))"
      using "1.IH" [OF True] "1.prems" by simp
    then show ?thesis
      using True by (subst print_top.simps) (simp only: up tk if_True zip_Cons_Cons list.map concat.simps prod.case)
  next
    case False
    then show ?thesis
      by (subst print_top.simps) simp
  qed
qed

lemma enumeration_graph:
  "distinct (map fst ps) \<Longrightarrow> set ps = Map.graph (map_of ps)"
  by (auto simp: Map.graph_def)

lemma enumeration_card:
  "distinct (map fst ps) \<Longrightarrow> card (dom (map_of ps)) = length ps"
  using distinct_card [of "map fst ps"] by (simp add: dom_map_of_conv_image_fst)

text \<open>Every finite map has an order of iteration, and the maps of a processing pass are
  finite.\<close>

lemma finite_map_enumeration:
  assumes "finite (dom m)"
  shows "\<exists>ps. distinct (map fst ps) \<and> map_of ps = m"
proof -
  obtain ks where ks: "set ks = dom m" and d: "distinct ks"
    using finite_distinct_list [OF assms] by blast
  define ps where "ps = map (\<lambda>k. (k, the (m k))) ks"
  have fst: "map fst ps = ks"
    unfolding ps_def by (induction ks) simp_all
  have "map_of ps k = m k" for k
  proof (cases "k \<in> dom m")
    case True
    then obtain v where v: "m k = Some v" by blast
    from True ks have "k \<in> set ks" by simp
    then have "map_of ps k = Some (the (m k))"
      unfolding ps_def by (induction ks) auto
    with v show ?thesis by simp
  next
    case False
    then have "k \<notin> set (map fst ps)" by (simp only: fst ks not_False_eq_True)
    then have "map_of ps k = None" by (simp only: map_of_eq_None_iff set_map not_False_eq_True)
    with False show ?thesis by (simp add: domIff)
  qed
  then have "map_of ps = m" by (rule ext)
  with d fst show ?thesis by (metis)
qed

lemma processed_messages_enumerable:
  assumes "process_file fs filepath init_stats = Some stats"
  shows "\<exists>ps. distinct (map fst ps) \<and> map_of ps = message_counts stats"
proof -
  from assms obtain content where "stats = read_loop content init_stats"
    by (auto simp: process_file_def split: option.splits)
  then have "stats = foldl (\<lambda>s l. process_line l s) init_stats (file_lines content)"
    by (simp add: read_loop_eq)
  moreover have "finite (dom (message_counts init_stats))"
    by (simp add: init_stats_def)
  ultimately have "finite (dom (message_counts stats))"
    by (simp add: fold_messages_finite)
  then show ?thesis by (rule finite_map_enumeration)
qed

text \<open>
  The report for fewer than \<open>2^31\<close> distinct messages, where the cast of their number
  to \<^verbatim>\<open>int\<close> keeps its value. Let \<open>message_iter\<close> be the entries of \<open>message_counts\<close>
  in the order the loop visits them and \<open>ranking\<close> those entries sorted by count
  descending, ties by message ascending. Then for every \<open>top_n\<close> the report lists the
  first \<open>min(top_n, number of distinct messages)\<close> entries of the ranking (none when
  that number is not positive), one per line as \<open>rank) message (count)\<close> with ranks
  from 1.
\<close>

theorem top_messages_ranked:
  assumes "distinct (map fst message_iter)"
    and "map_of message_iter = message_counts stats"
    and "length message_iter < 2 ^ 31"
    and "set ranking = Map.graph (message_counts stats)"
    and "sorted_wrt ranked_before ranking"
    and "k = nat (min top_n (int (card (dom (message_counts stats)))))"
  shows "print_top_messages top_n message_iter =
           [newline] @ ''Top messages:'' @ [newline]
           @ concat (map2 (\<lambda>rank (message, count).
                 ''  '' @ show_int rank @ '') '' @ message @ '' ('' @ show_int count @ '')'' @ [newline])
               [1..int k] (take k ranking))
           @ (if min top_n (int (card (dom (message_counts stats)))) = 0
              then ''  (No messages found)'' @ [newline] else [])
           @ [newline]
         \<and> length (take k ranking) = k
         \<and> (0 \<le> top_n \<longrightarrow> int k = min top_n (int (card (dom (message_counts stats)))))"
proof -
  let ?pairs = "sort_pairs message_iter"
  have dps: "distinct message_iter"
    using assms(1) by (rule distinct_map [THEN iffD1, THEN conjunct1])
  have "set ranking = set ?pairs"
    using assms(1,2,4) by (simp add: set_sort_pairs enumeration_graph)
  with assms(5) sorted_sort_pairs [OF dps] have rk: "?pairs = ranking"
    by (intro ranking_unique) simp_all
  have card: "card (dom (message_counts stats)) = length message_iter"
    using assms(1,2) enumeration_card by metis
  have len: "length ranking = length message_iter"
    using rk length_sort_pairs by metis
  have lim: "top_limit top_n ?pairs = min top_n (int (length message_iter))"
    using assms(3) by (simp add: top_limit_def length_sort_pairs size_as_int_small)
  have tl: "top_line = (\<lambda>rank (message, count).
      ''  '' @ show_int rank @ '') '' @ message @ '' ('' @ show_int count @ '')'' @ [newline])"
    by (auto simp: fun_eq_iff top_line_def)
  have "print_top ?pairs (top_limit top_n ?pairs) 0 =
      concat (map2 top_line [0 + 1..top_limit top_n ?pairs]
        (take (nat (top_limit top_n ?pairs - 0)) (drop (nat 0) ?pairs)))"
    by (rule print_top_eq) (simp_all add: lim length_sort_pairs)
  then have pt: "print_top ?pairs (top_limit top_n ?pairs) 0 =
      concat (map2 top_line [1..top_limit top_n ?pairs] (take (nat (top_limit top_n ?pairs)) ranking))"
    by (simp add: rk)
  have k: "k = nat (top_limit top_n ?pairs)"
    by (simp add: assms(6) card lim)
  have "print_top ?pairs (top_limit top_n ?pairs) 0 =
      concat (map2 top_line [1..int k] (take k ranking))"
  proof (cases "0 \<le> top_limit top_n ?pairs")
    case True
    then have "int k = top_limit top_n ?pairs" by (simp add: k)
    then show ?thesis by (simp only: pt k [symmetric])
  next
    case False
    then have "k = 0" and "[1..top_limit top_n ?pairs] = []" by (simp_all add: k)
    then show ?thesis by (simp add: pt)
  qed
  moreover have "length (take k ranking) = k"
    by (simp add: assms(6) card len)
  moreover have "0 \<le> top_n \<longrightarrow> int k = min top_n (int (card (dom (message_counts stats))))"
    by (simp add: assms(6))
  ultimately show ?thesis
    by (simp add: print_top_messages_def Let_def lim card tl)
qed


theorem top_messages_ranked_witness:
  "print_top_messages 2 [(''slow'', 1), (''ok'', 2), (''zed'', 1), (''fail'', 2)] =
     [newline] @ ''Top messages:'' @ [newline]
     @ ''  1) fail (2)'' @ [newline]
     @ ''  2) ok (2)'' @ [newline]
     @ [newline]"
proof -
  let ?iter = "[(''slow'', 1), (''ok'', 2), (''zed'', 1), (''fail'', 2)] :: (string \<times> int) list"
  let ?ranking = "[(''fail'', 2), (''ok'', 2), (''slow'', 1), (''zed'', 1)] :: (string \<times> int) list"
  let ?stats = "\<lparr>total_lines = 6, level_counts = Map.empty, message_counts = map_of ?iter\<rparr>"
  have d: "distinct (map fst ?iter)" by simp
  have m: "map_of ?iter = message_counts ?stats" by simp
  have l: "length ?iter < 2 ^ 31" by simp
  have "set ?ranking = set ?iter" by auto
  also have "set ?iter = Map.graph (map_of ?iter)"
    using d by (rule enumeration_graph)
  finally have g: "set ?ranking = Map.graph (message_counts ?stats)" by simp
  have r: "sorted_wrt ranked_before ?ranking"
    by (simp add: ranked_before_def)
  have c: "card (dom (message_counts ?stats)) = 4"
    using enumeration_card [OF d] by simp
  then have k: "2 = nat (min 2 (int (card (dom (message_counts ?stats)))))"
    by simp
  have "print_top_messages 2 ?iter =
      [newline] @ ''Top messages:'' @ [newline]
      @ concat (map2 (\<lambda>rank (message, count).
            ''  '' @ show_int rank @ '') '' @ message @ '' ('' @ show_int count @ '')'' @ [newline])
          [1..int 2] (take 2 ?ranking))
      @ (if min 2 (int (card (dom (message_counts ?stats)))) = 0
         then ''  (No messages found)'' @ [newline] else [])
      @ [newline]"
    using top_messages_ranked [OF d m l g r k] by (rule conjunct1)
  also have "min 2 (int (card (dom (message_counts ?stats)))) = 2"
    by (simp add: c)
  also have "[newline] @ ''Top messages:'' @ [newline]
      @ concat (map2 (\<lambda>rank (message, count).
            ''  '' @ show_int rank @ '') '' @ message @ '' ('' @ show_int count @ '')'' @ [newline])
          [1..int 2] (take 2 ?ranking))
      @ (if (2 :: int) = 0 then ''  (No messages found)'' @ [newline] else [])
      @ [newline]
    = [newline] @ ''Top messages:'' @ [newline]
     @ ''  1) fail (2)'' @ [newline]
     @ ''  2) ok (2)'' @ [newline]
     @ [newline]"
    by code_simp
  finally show ?thesis .
qed

subsection \<open>From \<open>2^31\<close> distinct messages on\<close>

lemma of_char_digit: "d < 10 \<Longrightarrow> (of_char (char_of (48 + d :: nat)) :: nat) = 48 + d"
  by simp

lemma of_char_digit_int: "d < 10 \<Longrightarrow> (of_char (char_of (48 + d :: nat)) :: int) = 48 + int d"
proof -
  assume "d < 10"
  then have "(of_char (char_of (48 + d)) :: nat) = 48 + d" by (rule of_char_digit)
  moreover have "(of_char c :: int) = int (of_char c)" for c
    by (simp only: of_nat_of_char)
  ultimately show ?thesis by simp
qed

lemma show_nat_digits: "c \<in> set (show_nat n) \<Longrightarrow> 48 \<le> (of_char c :: nat) \<and> (of_char c :: nat) \<le> 57"
proof (induction n arbitrary: c rule: show_nat.induct)
  case (1 n)
  show ?case
  proof (cases "n < 10")
    case True
    with "1.prems" have "c = char_of (48 + n)"
      by (subst (asm) show_nat.simps) simp
    with True show ?thesis by (simp only: of_char_digit) simp
  next
    case False
    with "1.prems" have "c \<in> set (show_nat (n div 10)) \<or> c = char_of (48 + n mod 10)"
      by (subst (asm) show_nat.simps) auto
    then show ?thesis
    proof
      assume "c \<in> set (show_nat (n div 10))"
      with "1.IH" False show ?thesis by blast
    next
      assume c: "c = char_of (48 + n mod 10)"
      have "n mod 10 < 10" by simp
      then have "(of_char c :: nat) = 48 + n mod 10"
        unfolding c by (rule of_char_digit)
      then show ?thesis by simp
    qed
  qed
qed

lemma show_nat_not_Nil: "show_nat n \<noteq> []"
  by (subst show_nat.simps) simp

lemma digits_value_snoc: "digits_value (ds @ [c]) = digits_value ds * 10 + (of_char c - 48)"
  by (simp add: digits_value_def)

lemma digits_value_show_nat: "digits_value (show_nat n) = int n"
proof (induction n rule: show_nat.induct)
  case (1 n)
  show ?case
  proof (cases "n < 10")
    case True
    then have "(of_char (char_of (48 + n)) :: int) = 48 + int n"
      by (rule of_char_digit_int)
    with True show ?thesis
      by (subst show_nat.simps) (simp add: digits_value_def)
  next
    case False
    have "n mod 10 < 10" by simp
    then have "(of_char (char_of (48 + n mod 10)) :: int) = 48 + int (n mod 10)"
      by (rule of_char_digit_int)
    moreover have "digits_value (show_nat (n div 10)) = int (n div 10)"
      using "1.IH" False by simp
    ultimately have "digits_value (show_nat (n div 10) @ [char_of (48 + n mod 10)]) =
        int (n div 10) * 10 + int (n mod 10)"
      by (simp add: digits_value_snoc)
    also have "\<dots> = int n"
      by (simp add: zdiv_int zmod_int)
    finally show ?thesis
      using False by (subst show_nat.simps) simp
  qed
qed

lemma show_nat_inj: "show_nat i = show_nat j \<Longrightarrow> i = j"
proof -
  assume "show_nat i = show_nat j"
  then have "digits_value (show_nat i) = digits_value (show_nat j)" by (rule arg_cong)
  then show "i = j" by (simp only: digits_value_show_nat of_nat_eq_iff)
qed

lemma show_nat_no_space: "c \<in> set (show_nat n) \<Longrightarrow> \<not> isspace c"
proof
  assume "c \<in> set (show_nat n)" and "isspace c"
  then have "48 \<le> (of_char c :: nat)" and "(of_char c :: nat) \<le> 32"
    by (auto dest: show_nat_digits simp: isspace_def)
  then show False by simp
qed

lemma show_nat_no_newline: "newline \<notin> set (show_nat n)"
  using show_nat_no_space [of newline n] by (auto simp: isspace_def newline_def)


lemma strip_no_space: "(\<forall>c \<in> set s. \<not> isspace c) \<Longrightarrow> strip s = s"
proof -
  assume a: "\<forall>c \<in> set s. \<not> isspace c"
  have "dropWhile isspace xs = xs" if "\<forall>c \<in> set xs. \<not> isspace c" for xs
    using that by (cases xs) simp_all
  from this [of s] this [of "rev s"] a show ?thesis
    by (simp add: strip_def)
qed

lemma extract_message_plain:
  assumes "\<forall>c \<in> set s. \<not> isspace c"
  shows "extract_message s = s"
proof -
  have "\<not> sublist '' - '' s"
  proof
    assume "sublist '' - '' s"
    then obtain p q where "s = p @ '' - '' @ q" by (auto simp: sublist_def)
    then have "CHR '' '' \<in> set s" by simp
    with assms show False by (auto simp: isspace_def)
  qed
  then have "find_from '' - '' s 0 = None"
    using find_from_None by blast
  then show ?thesis
    by (simp add: extract_message_def trim_eq_strip strip_no_space [OF assms])
qed

lemma getline_line:
  assumes "newline \<notin> set l"
  shows "getline (l @ newline # rest) = Some (l, rest)"
proof -
  have "takeWhile (\<lambda>c. c \<noteq> newline) (l @ newline # rest) = l"
    using assms by (induction l) auto
  moreover have "dropWhile (\<lambda>c. c \<noteq> newline) (l @ newline # rest) = newline # rest"
    using assms by (induction l) auto
  ultimately show ?thesis
    by (simp add: getline_def)
qed

lemma file_lines_concat:
  "(\<forall>l \<in> set ls. newline \<notin> set l) \<Longrightarrow>
   file_lines (concat (map (\<lambda>l. l @ [newline]) ls)) = ls"
proof (induction ls)
  case Nil
  then show ?case by (simp add: file_lines_Nil)
next
  case (Cons l ls)
  let ?rest = "concat (map (\<lambda>l. l @ [newline]) ls)"
  have "getline (l @ newline # ?rest) = Some (l, ?rest)"
    using Cons.prems by (intro getline_line) simp
  then have "file_lines (l @ newline # ?rest) = l # file_lines ?rest"
    by (rule file_lines_getline)
  with Cons show ?case by simp
qed

lemma occurrences_distinct:
  assumes "distinct ls" and "\<forall>l \<in> set ls. extract_message l = l"
  shows "occurrences k ls = (if k \<in> set ls then 1 else 0)"
  using assms unfolding occurrences_def
  by (induction ls) auto

lemma map_of_ones:
  "map_of (map (\<lambda>l. (l, 1 :: int)) ls) k = (if k \<in> set ls then Some 1 else None)"
  by (induction ls) auto

lemma numbered_file_messages:
  "map_option message_counts
     (process_file (Map.empty(path \<mapsto> numbered_lines n)) path init_stats)
   = Some (map_of (numbered_entries n))"
proof -
  let ?ls = "map show_nat [0..<n]"
  have nl: "numbered_lines n = concat (map (\<lambda>l. l @ [newline]) ?ls)"
    by (simp add: numbered_lines_def comp_def)
  have en: "numbered_entries n = map (\<lambda>l. (l, 1)) ?ls"
    by (simp add: numbered_entries_def comp_def)
  have fl: "file_lines (numbered_lines n) = ?ls"
    unfolding nl by (rule file_lines_concat) (auto simp: show_nat_no_newline)
  have d: "distinct ?ls"
    by (auto simp: distinct_map inj_on_def dest: show_nat_inj)
  have m: "\<forall>l \<in> set ?ls. extract_message l = l"
    by (auto intro!: extract_message_plain dest: show_nat_no_space)
  have ne: "[] \<notin> set ?ls"
    using show_nat_not_Nil by (auto simp: eq_commute [of "[]"])
  have "message_counts (foldl (\<lambda>s l. process_line l s) init_stats ?ls) k
      = map_of (numbered_entries n) k" for k
    unfolding fold_messages_entry occurrences_distinct [OF d m] en map_of_ones
    using ne by (auto simp: init_stats_def)
  then have "message_counts (foldl (\<lambda>s l. process_line l s) init_stats ?ls)
      = map_of (numbered_entries n)"
    by (rule ext)
  then show ?thesis
    by (simp add: process_file_def read_loop_eq fl)
qed

lemma numbered_entries_distinct: "distinct (map fst (numbered_entries n))"
  by (auto simp: numbered_entries_def comp_def distinct_map inj_on_def dest: show_nat_inj)

lemma length_numbered_entries: "length (numbered_entries n) = n"
  by (simp add: numbered_entries_def)

text \<open>With \<open>2^31\<close> entries the cast gives a negative number. The limit is then negative
  for every \<open>top_n\<close>: the loop prints no entry, and the placeholder, printed only for
  the limit 0, is missing as well.\<close>

lemma size_as_int_wraps: "size_as_int (2 ^ 31) = - (2 ^ 31)"
  by (simp add: size_as_int_def signed_of_nat)

lemma print_top_messages_negative:
  assumes "size_as_int (length message_iter) < 0"
  shows "print_top_messages top_n message_iter = [newline] @ ''Top messages:'' @ [newline] @ [newline]"
proof -
  let ?pairs = "sort_pairs message_iter"
  have "top_limit top_n ?pairs < 0"
    using assms by (simp add: top_limit_def length_sort_pairs)
  moreover from this have "print_top ?pairs (top_limit top_n ?pairs) 0 = []"
    by (subst print_top.simps) simp
  ultimately show ?thesis
    by (simp add: print_top_messages_def Let_def)
qed

lemma top_messages_absent_any_order:
  assumes "distinct (map fst message_iter)"
    and "map_of message_iter = map_of (numbered_entries (2 ^ 31))"
  shows "print_top_messages top_n message_iter = [newline] @ ''Top messages:'' @ [newline] @ [newline]"
proof -
  have "length message_iter = card (dom (map_of message_iter))"
    using assms(1) by (rule enumeration_card [symmetric])
  also have "\<dots> = card (dom (map_of (numbered_entries (2 ^ 31))))"
    by (simp only: assms(2))
  also have "\<dots> = length (numbered_entries (2 ^ 31))"
    using numbered_entries_distinct by (rule enumeration_card)
  also have "\<dots> = 2 ^ 31"
    by (rule length_numbered_entries)
  finally have "size_as_int (length message_iter) = - (2 ^ 31)"
    by (simp only: size_as_int_wraps)
  then have "size_as_int (length message_iter) < 0"
    by simp
  then show ?thesis
    by (rule print_top_messages_negative)
qed

text \<open>
  Claim C3. The claim asks, for every file and every \<open>top_n\<close>, for the first
  \<open>min(top_n, number of distinct messages)\<close> entries of the ranking. For the file whose
  lines are the numbers 0 to \<open>2^31 - 1\<close> the pass collects \<open>2^31\<close> distinct messages, and
  with \<open>top_n = 5\<close> the report then has neither an entry nor the placeholder, where the
  claim asks for five entries.
\<close>

theorem top_messages_missing_at_2_31:
  "map_option message_counts
     (process_file (Map.empty(''big.log'' \<mapsto> numbered_lines (2 ^ 31))) ''big.log'' init_stats)
     = Some (map_of (numbered_entries (2 ^ 31)))
   \<and> distinct (map fst (numbered_entries (2 ^ 31)))
   \<and> card (dom (map_of (numbered_entries (2 ^ 31)))) = 2 ^ 31
   \<and> print_top_messages 5 (numbered_entries (2 ^ 31))
     = [newline] @ ''Top messages:'' @ [newline] @ [newline]"
proof (intro conjI)
  show "map_option message_counts
     (process_file (Map.empty(''big.log'' \<mapsto> numbered_lines (2 ^ 31))) ''big.log'' init_stats)
     = Some (map_of (numbered_entries (2 ^ 31)))"
    by (rule numbered_file_messages)
  show d: "distinct (map fst (numbered_entries (2 ^ 31)))"
    by (rule numbered_entries_distinct)
  have "card (dom (map_of (numbered_entries (2 ^ 31)))) = length (numbered_entries (2 ^ 31))"
    using d by (rule enumeration_card)
  then show "card (dom (map_of (numbered_entries (2 ^ 31)))) = 2 ^ 31"
    by (simp only: length_numbered_entries)
  show "print_top_messages 5 (numbered_entries (2 ^ 31))
     = [newline] @ ''Top messages:'' @ [newline] @ [newline]"
    using d refl by (rule top_messages_absent_any_order)
qed

section \<open>Command line and exit codes\<close>

text \<open>What \<open>stoi\<close> accepts and rejects: a numeric prefix is enough, text after it is
  ignored; values beyond the range of \<^verbatim>\<open>int\<close> are rejected.\<close>

lemma stoi_examples:
  "stoi ''12abc'' = Inr 12" "stoi ''  -7'' = Inr (- 7)" "stoi ''+3'' = Inr 3"
  "stoi ''abc'' = Inl invalid_argument" "stoi [] = Inl invalid_argument"
  "stoi ''-'' = Inl invalid_argument"
  "stoi ''2147483647'' = Inr 2147483647" "stoi ''2147483648'' = Inl out_of_range"
  "stoi ''-2147483648'' = Inr (- 2147483648)" "stoi ''-2147483649'' = Inl out_of_range"
  by code_simp+

lemma parse_args_two: "parse_args [exe, path] fp0 = (True, path, 5)"
  by (simp add: parse_args_def)

lemma parse_args_top:
  "parse_args [exe, path, ''--top'', v] fp0 =
     (case stoi v of
        Inr n \<Rightarrow> (True, path, if n < 1 then 1 else n)
      | Inl e \<Rightarrow> (False, path, 5))"
  by (simp add: parse_args_def split: sum.splits)

lemma parse_args_ok_iff: "fst (parse_args argv fp0) \<longleftrightarrow> valid_args argv"
proof -
  consider "argv = []" | a where "argv = [a]" | a b where "argv = [a, b]"
    | a b c where "argv = [a, b, c]" | a b c d where "argv = [a, b, c, d]"
    | a b c d e r where "argv = a # b # c # d # e # r"
    by (metis list.exhaust)
  then show ?thesis
    by cases (auto simp: parse_args_def valid_args_def Let_def split: sum.splits)
qed

lemma parse_args_path: "valid_args argv \<Longrightarrow> fst (snd (parse_args argv fp0)) = argv ! 1"
  by (auto simp: parse_args_def valid_args_def Let_def split: list.splits sum.splits if_splits)

lemma parse_args_top_n: "fst (parse_args argv fp0) \<Longrightarrow> 1 \<le> snd (snd (parse_args argv fp0))"
  by (auto simp: parse_args_def Let_def split: sum.splits if_splits)










text \<open>
  Claim C7. Whenever \<open>parse_args\<close> succeeds, \<open>top_n\<close> is at least 1: a value after
  \<open>--top\<close> that parses to a number below 1 gives \<open>top_n = 1\<close> and is not rejected,
  a number from 1 on is taken as it is, and without the flag \<open>top_n\<close> is 5.
\<close>

theorem parse_args_top_n_at_least_one:
  "(parse_args argv fp0 = (True, filepath, top_n) \<longrightarrow> 1 \<le> top_n)
   \<and> (stoi v = Inr n \<and> n < 1 \<longrightarrow> parse_args [exe, path, ''--top'', v] fp0 = (True, path, 1))
   \<and> (stoi v = Inr n \<and> 1 \<le> n \<longrightarrow> parse_args [exe, path, ''--top'', v] fp0 = (True, path, n))
   \<and> parse_args [exe, path] fp0 = (True, path, 5)"
proof (intro conjI impI)
  assume "parse_args argv fp0 = (True, filepath, top_n)"
  then show "1 \<le> top_n"
    using parse_args_top_n [of argv fp0] by simp
qed (simp_all add: parse_args_top parse_args_two)

theorem parse_args_top_n_at_least_one_witness:
  "parse_args [''log_parser'', ''app.log'', ''--top'', ''0''] [] = (True, ''app.log'', 1)
   \<and> parse_args [''log_parser'', ''app.log'', ''--top'', ''-4''] [] = (True, ''app.log'', 1)
   \<and> parse_args [''log_parser'', ''app.log'', ''--top'', ''10''] [] = (True, ''app.log'', 10)
   \<and> parse_args [''log_parser'', ''app.log''] [] = (True, ''app.log'', 5)
   \<and> (1 :: int) \<le> 10"
proof -
  have z: "stoi ''0'' = Inr 0 \<and> (0 :: int) < 1" by code_simp
  have m: "stoi ''-4'' = Inr (- 4) \<and> (- 4 :: int) < 1" by code_simp
  have t: "stoi ''10'' = Inr 10 \<and> (1 :: int) \<le> 10" by code_simp
  note c = parse_args_top_n_at_least_one
  have 1: "parse_args [''log_parser'', ''app.log'', ''--top'', ''0''] [] = (True, ''app.log'', 1)"
    using c [THEN conjunct2, THEN conjunct1, THEN mp, OF z] .
  have 2: "parse_args [''log_parser'', ''app.log'', ''--top'', ''-4''] [] = (True, ''app.log'', 1)"
    using c [THEN conjunct2, THEN conjunct1, THEN mp, OF m] .
  have 3: "parse_args [''log_parser'', ''app.log'', ''--top'', ''10''] [] = (True, ''app.log'', 10)"
    using c [THEN conjunct2, THEN conjunct2, THEN conjunct1, THEN mp, OF t] .
  have 4: "parse_args [''log_parser'', ''app.log''] [] = (True, ''app.log'', 5)"
    using c [THEN conjunct2, THEN conjunct2, THEN conjunct2] .
  have 5: "(1 :: int) \<le> 10"
    using c [THEN conjunct1, THEN mp, OF 3] .
  from 1 2 3 4 5 show ?thesis by (intro conjI)
qed




section \<open>The empty file\<close>

lemma show_int_0: "show_int 0 = ''0''"
  by code_simp

lemma read_loop_empty: "read_loop [] stats = stats"
  by (subst read_loop.simps) (simp add: getline_def)

text \<open>
  Claim C9. For an empty file the pass leaves \<open>total_lines = 0\<close> and both maps empty,
  and the report has no level line and the line \<open>(No messages found)\<close> in place of
  the numbered list.
\<close>

theorem empty_file_report:
  assumes "valid_args argv" and "fs (argv ! 1) = Some []" and "iter Map.empty = []"
  shows "process_file fs (argv ! 1) init_stats
           = Some \<lparr>total_lines = 0, level_counts = Map.empty, message_counts = Map.empty\<rparr>
       \<and> main iter fs argv = \<lparr>exit_code = 0, std_out = empty_report, std_err = []\<rparr>"
proof -
  obtain ok filepath top_n where p: "parse_args argv [] = (ok, filepath, top_n)"
    by (cases "parse_args argv []") auto
  with assms(1) have ok: "ok" and path: "filepath = argv ! 1" and top: "1 \<le> top_n"
    using parse_args_ok_iff [of argv "[]"] parse_args_path [of argv "[]"]
      parse_args_top_n [of argv "[]"] by simp_all
  have pf: "process_file fs (argv ! 1) init_stats = Some init_stats"
    using assms(2) by (simp add: process_file_def read_loop_empty)
  have "size_as_int 0 = 0" by (simp add: size_as_int_def)
  with top have lim: "top_limit top_n [] = 0"
    by (simp add: top_limit_def)
  have "print_top [] 0 0 = []"
    by (subst print_top.simps) simp
  with lim have "print_top_messages top_n [] =
      [newline] @ ''Top messages:'' @ [newline] @ ''  (No messages found)'' @ [newline] @ [newline]"
    by (simp add: print_top_messages_def sort_pairs_def)
  then have "print_results init_stats top_n [] [] = empty_report"
    by (simp add: print_results_def init_stats_def common_def show_int_0 empty_report_def)
  with pf ok path assms(3) show ?thesis
    by (simp add: main_def p init_stats_def)
qed


theorem empty_file_report_witness:
  "process_file (Map.empty(''empty.log'' \<mapsto> [])) ''empty.log'' init_stats
     = Some \<lparr>total_lines = 0, level_counts = Map.empty, message_counts = Map.empty\<rparr>
   \<and> main (\<lambda>m. []) (Map.empty(''empty.log'' \<mapsto> [])) [''log_parser'', ''empty.log'']
     = \<lparr>exit_code = 0, std_out = empty_report, std_err = []\<rparr>"
proof -
  have "valid_args [''log_parser'', ''empty.log'']"
    by (simp add: valid_args_def)
  moreover have "(Map.empty(''empty.log'' \<mapsto> [])) ([''log_parser'', ''empty.log''] ! 1) = Some []"
    by simp
  moreover have "(\<lambda>m :: string \<rightharpoonup> int. [] :: (string \<times> int) list) Map.empty = []"
    by simp
  ultimately show ?thesis
    using empty_file_report [of "[''log_parser'', ''empty.log'']" "Map.empty(''empty.log'' \<mapsto> [])"
        "\<lambda>m. []"]
    by simp
qed

section \<open>The levels that can occur\<close>

lemma match_levels_range:
  "match_levels upper levels = Some r \<Longrightarrow>
   r \<in> {''TRACE'', ''DEBUG'', ''INFO'', ''WARN'', ''ERROR'', ''FATAL''}"
  by (simp add: match_levels_member levels_def split: if_splits)

lemma scan_tokens_range:
  "scan_tokens inp \<in> {''TRACE'', ''DEBUG'', ''INFO'', ''WARN'', ''ERROR'', ''FATAL'', ''UNKNOWN''}"
proof (induction inp rule: scan_tokens.induct)
  case (1 inp)
  show ?case
  proof (cases "read_token inp")
    case None
    then show ?thesis by (subst scan_tokens.simps) simp
  next
    case (Some p)
    obtain token rest where p: "p = (token, rest)" by (cases p)
    with Some have rt: "read_token inp = Some (token, rest)" by simp
    show ?thesis
    proof (cases "match_levels (map toupper token) levels")
      case None
      with "1.IH" [OF rt refl refl None] rt show ?thesis
        by (subst scan_tokens.simps) simp
    next
      case (Some r)
      with match_levels_range [OF Some] rt show ?thesis
        by (subst scan_tokens.simps) auto
    qed
  qed
qed

lemma extract_level_common: "extract_level line \<in> set common"
  using scan_tokens_range [of line] by (auto simp: extract_level_def common_def)

lemma fold_levels_dom:
  "dom (level_counts st) \<subseteq> set common \<Longrightarrow>
   dom (level_counts (foldl (\<lambda>s l. process_line l s) st ls)) \<subseteq> set common"
proof (induction ls arbitrary: st)
  case Nil
  then show ?case by simp
next
  case (Cons l ls)
  have "dom (level_counts (process_line l st)) \<subseteq> set common"
    using Cons.prems extract_level_common [of l] by (simp add: process_line_levels dom_incr)
  then show ?case
    using Cons.IH by simp
qed

lemma print_extra_none: "fst ` set kvs \<subseteq> set cm \<Longrightarrow> print_extra cm kvs = []"
  by (induction kvs) (auto simp: find_None_iff)

text \<open>
  Claim C10. \<open>extract_level\<close> returns one of TRACE, DEBUG, INFO, WARN, ERROR, FATAL,
  UNKNOWN. So after processing a file every key of \<open>level_counts\<close> is in \<open>common\<close>,
  and the second loop over the levels, in whatever order it visits the entries, prints
  nothing.
\<close>

theorem levels_within_common:
  assumes "process_file fs filepath init_stats = Some stats"
    and "distinct (map fst level_iter)"
    and "map_of level_iter = level_counts stats"
  shows "extract_level line \<in> {''TRACE'', ''DEBUG'', ''INFO'', ''WARN'', ''ERROR'', ''FATAL'', ''UNKNOWN''}
       \<and> dom (level_counts stats) \<subseteq> set common
       \<and> print_extra common level_iter = []"
proof -
  from assms(1) obtain content where "fs filepath = Some content"
    and "stats = read_loop content init_stats"
    by (auto simp: process_file_def split: option.splits)
  then have st: "stats = foldl (\<lambda>s l. process_line l s) init_stats (file_lines content)"
    by (simp add: read_loop_eq)
  have "dom (level_counts init_stats) \<subseteq> set common"
    by (simp add: init_stats_def)
  then have d: "dom (level_counts stats) \<subseteq> set common"
    unfolding st by (rule fold_levels_dom)
  have "fst ` set level_iter = dom (map_of level_iter)"
    by (simp add: dom_map_of_conv_image_fst)
  with d assms(3) have "fst ` set level_iter \<subseteq> set common" by simp
  then have "print_extra common level_iter = []"
    by (rule print_extra_none)
  with d scan_tokens_range [of line] show ?thesis
    by (simp add: extract_level_def)
qed

theorem levels_within_common_witness:
  "extract_level ''10:00 warning disk - low'' \<in>
     {''TRACE'', ''DEBUG'', ''INFO'', ''WARN'', ''ERROR'', ''FATAL'', ''UNKNOWN''}
   \<and> process_file (Map.empty(''app.log'' \<mapsto> ''10:00 warning disk - low'' @ [newline] @ ''plain''))
         ''app.log'' init_stats
       = Some \<lparr>total_lines = 2,
               level_counts = Map.empty(''WARN'' \<mapsto> 1, ''UNKNOWN'' \<mapsto> 1),
               message_counts = Map.empty(''low'' \<mapsto> 1, ''plain'' \<mapsto> 1)\<rparr>
   \<and> dom (Map.empty(''WARN'' \<mapsto> 1 :: int, ''UNKNOWN'' \<mapsto> 1)) \<subseteq> set common
   \<and> print_extra common [(''UNKNOWN'', 1), (''WARN'', 1)] = []"
proof -
  let ?content = "''10:00 warning disk - low'' @ [newline] @ ''plain''"
  let ?fs = "Map.empty(''app.log'' \<mapsto> ?content)"
  let ?stats = "\<lparr>total_lines = 2,
               level_counts = Map.empty(''WARN'' \<mapsto> 1, ''UNKNOWN'' \<mapsto> 1),
               message_counts = Map.empty(''low'' \<mapsto> 1, ''plain'' \<mapsto> 1)\<rparr>"
  have fl: "file_lines ?content = [''10:00 warning disk - low'', ''plain'']"
    by code_simp
  have lv: "extract_level ''10:00 warning disk - low'' = ''WARN''" "extract_level ''plain'' = ''UNKNOWN''"
    by code_simp+
  have ms: "extract_message ''10:00 warning disk - low'' = ''low''" "extract_message ''plain'' = ''plain''"
    by code_simp+
  have "read_loop ?content init_stats = ?stats"
    unfolding read_loop_eq fl
    by (simp add: process_line_def Let_def lv ms incr_def init_stats_def)
  then have pf: "process_file ?fs ''app.log'' init_stats = Some ?stats"
    by (simp add: process_file_def)
  have d: "distinct (map fst [(''UNKNOWN'', 1 :: int), (''WARN'', 1)])"
    by simp
  have m: "map_of [(''UNKNOWN'', 1 :: int), (''WARN'', 1)] = level_counts ?stats"
    by (auto simp: fun_eq_iff)
  from levels_within_common [OF pf d m, of "''10:00 warning disk - low''"] pf
  show ?thesis by simp
qed

end
